theory Spec2Isabelle
  imports Complex_Main "HOL-Library.Sublist" "HOL-Library.AList" "HOL-Library.Code_Target_Nat"
begin

section \<open>Sandbox configuration (config.js, docker.js)\<close>

text \<open>
  The resource section of the service configuration and the \<open>HostConfig\<close> object
  that \<open>executeAnchorBuild\<close> hands to the container runtime. Memory sizes are
  byte counts, \<open>NanoCpus\<close> is \<open>cpus * 1e9\<close>.
\<close>

record docker_config =
  memory :: nat
  memorySwap :: nat
  cpus :: nat
  networkDisabled :: bool
  readonlyRootfs :: bool
  autoRemove :: bool

definition config_docker :: docker_config where
  "config_docker =
     \<lparr> memory = 2 * 1024 * 1024 * 1024,
       memorySwap = 2 * 1024 * 1024 * 1024,
       cpus = 2,
       networkDisabled = False,
       readonlyRootfs = False,
       autoRemove = True \<rparr>"

record host_config =
  Memory :: nat
  MemorySwap :: nat
  NanoCpus :: nat
  NetworkMode :: string
  AutoRemove :: bool
  ReadonlyRootfs :: bool
  SecurityOpt :: "string list"
  CapDrop :: "string list"
  CapAdd :: "string list"

definition hostConfig :: "docker_config \<Rightarrow> host_config" where
  "hostConfig cfg =
     \<lparr> Memory = memory cfg,
       MemorySwap = memorySwap cfg,
       NanoCpus = cpus cfg * 1000000000,
       NetworkMode = (if networkDisabled cfg then ''none'' else ''default''),
       AutoRemove = False,
       ReadonlyRootfs = readonlyRootfs cfg,
       SecurityOpt = [''no-new-privileges''],
       CapDrop = [''ALL''],
       CapAdd = [''CHOWN'', ''FOWNER'', ''DAC_OVERRIDE''] \<rparr>"

section \<open>Strings and the path module\<close>

text \<open>
  Texts are lists of code units; the literals the source compares against are ASCII.
  \<open>endsWith\<close>, \<open>startsWith\<close> and \<open>includes\<close> are the JavaScript string methods.
\<close>

definition endsWith :: "string \<Rightarrow> string \<Rightarrow> bool" where
  "endsWith s suf = suffix suf s"

definition startsWith :: "string \<Rightarrow> string \<Rightarrow> bool" where
  "startsWith s pre = prefix pre s"

definition includesStr :: "string \<Rightarrow> string \<Rightarrow> bool" where
  "includesStr s sub = sublist sub s"

text \<open>\<open>s.split(c)\<close>: the pieces between the separators, never the empty list.\<close>

fun splitOn :: "char \<Rightarrow> string \<Rightarrow> string list" where
  "splitOn c [] = [[]]"
| "splitOn c (x # xs) =
     (if x = c then [] # splitOn c xs
      else (case splitOn c xs of [] \<Rightarrow> [[x]] | w # ws \<Rightarrow> (x # w) # ws))"

fun joinWith :: "string \<Rightarrow> string list \<Rightarrow> string" where
  "joinWith sep [] = []"
| "joinWith sep [s] = s"
| "joinWith sep (s # t # ss) = s @ sep @ joinWith sep (t # ss)"

text \<open>
  The POSIX flavour of Node's \<open>path\<close> module, which the service runs on.
  \<open>normalizeSegs\<close> is \<open>normalizeString\<close> read segment by segment: empty segments
  and \<open>.\<close> are dropped, \<open>..\<close> removes the segment before it unless there is none
  or it is itself \<open>..\<close>, in which case it is kept only for a relative path.
\<close>

definition isAbsolute :: "string \<Rightarrow> bool" where
  "isAbsolute p = (p \<noteq> [] \<and> hd p = CHR ''/'')"

definition trailingSep :: "string \<Rightarrow> bool" where
  "trailingSep p = (p \<noteq> [] \<and> last p = CHR ''/'')"

fun normalizeSegs :: "bool \<Rightarrow> string list \<Rightarrow> string list \<Rightarrow> string list" where
  "normalizeSegs allowAboveRoot res [] = res"
| "normalizeSegs allowAboveRoot res (s # ss) =
     (if s = [] \<or> s = ''.'' then normalizeSegs allowAboveRoot res ss
      else if s = ''..'' then
        (if res \<noteq> [] \<and> last res \<noteq> ''..'' then normalizeSegs allowAboveRoot (butlast res) ss
         else if allowAboveRoot then normalizeSegs allowAboveRoot (res @ [''..'']) ss
         else normalizeSegs allowAboveRoot res ss)
      else normalizeSegs allowAboveRoot (res @ [s]) ss)"

definition segments :: "string \<Rightarrow> string list" where
  "segments p = normalizeSegs (\<not> isAbsolute p) [] (splitOn (CHR ''/'') p)"

definition normalize :: "string \<Rightarrow> string" where
  "normalize p =
     (if p = [] then ''.''
      else let body = joinWith ''/'' (segments p) in
        if body = [] then (if isAbsolute p then ''/'' else if trailingSep p then ''./'' else ''.'')
        else (if isAbsolute p then ''/'' else []) @ body @ (if trailingSep p then ''/'' else []))"

text \<open>\<open>path.join(a, b)\<close>: the non-empty arguments joined by a slash, then normalised.\<close>

definition pathJoin :: "string \<Rightarrow> string \<Rightarrow> string" where
  "pathJoin a b =
     (let joined = (if a = [] then b else if b = [] then a else a @ ''/'' @ b)
      in if joined = [] then ''.'' else normalize joined)"

text \<open>
  \<open>path.dirname\<close>: scanning from the end (index 0 excluded), skip the trailing slashes
  and the last component; what is left of the slash found there is the directory.
\<close>

definition dirname :: "string \<Rightarrow> string" where
  "dirname p =
     (if p = [] then ''.''
      else let r = dropWhile (\<lambda>c. c \<noteq> CHR ''/'') (dropWhile (\<lambda>c. c = CHR ''/'') (rev (tl p)))
        in if r = [] then (if isAbsolute p then ''/'' else ''.'')
           else if isAbsolute p \<and> length r = 1 then ''//''
           else take (length r) p)"

text \<open>
  \<open>path.extname\<close>: the part of the last component from its last dot on; empty when
  the component has no dot, starts with its only dot, or is \<open>..\<close>.
\<close>

definition basename :: "string \<Rightarrow> string" where
  "basename p = rev (takeWhile (\<lambda>c. c \<noteq> CHR ''/'') (dropWhile (\<lambda>c. c = CHR ''/'') (rev p)))"

definition extname :: "string \<Rightarrow> string" where
  "extname p =
     (let base = basename p;
          startDot = length base - Suc (length (takeWhile (\<lambda>c. c \<noteq> CHR ''.'') (rev base)))
      in if CHR ''.'' \<in> set base \<and> 0 < startDot \<and> base \<noteq> ''..'' then drop startDot base
         else [])"

section \<open>The file system the service works on\<close>

text \<open>
  A file system is a finite table from resolved paths to nodes. A path resolves to
  whether it is absolute and its normalised segments; a relative path is relative to
  the working directory of the service. The root, the working directory and their
  parents (keys of \<open>..\<close> segments only) are directories that always exist.
  Permissions, links and device errors are outside this model: an operation fails
  only for the reasons written here.
\<close>

datatype node = File string | Dir

type_synonym fkey = "bool \<times> string list"

type_synonym fs = "(fkey \<times> node) list"

definition keyOf :: "string \<Rightarrow> fkey" where
  "keyOf p = (isAbsolute p, segments p)"

definition lookupKey :: "fs \<Rightarrow> fkey \<Rightarrow> node option" where
  "lookupKey t k = (if list_all (\<lambda>s. s = ''..'') (snd k) then Some Dir else map_of t k)"

text \<open>\<open>fs.access\<close>: succeeds when the path names a node (a file only without a trailing slash).\<close>

definition fsAccess :: "fs \<Rightarrow> string \<Rightarrow> bool" where
  "fsAccess t p =
     (case lookupKey t (keyOf p) of
        None \<Rightarrow> False
      | Some Dir \<Rightarrow> True
      | Some (File c) \<Rightarrow> \<not> trailingSep p)"

text \<open>\<open>fs.readFile\<close>: \<open>None\<close> is the rejected promise (no entry, or a directory).\<close>

definition readFile :: "fs \<Rightarrow> string \<Rightarrow> string option" where
  "readFile t p =
     (case lookupKey t (keyOf p) of
        Some (File c) \<Rightarrow> (if trailingSep p then None else Some c)
      | _ \<Rightarrow> None)"

text \<open>\<open>fs.mkdir(p, {recursive: true})\<close>: creates the missing directories along the path; fails on a file in the way.\<close>

fun mkdirKey :: "fs \<Rightarrow> bool \<Rightarrow> string list \<Rightarrow> string list \<Rightarrow> fs option" where
  "mkdirKey t a pre [] = Some t"
| "mkdirKey t a pre (s # ss) =
     (case lookupKey t (a, pre @ [s]) of
        Some (File c) \<Rightarrow> None
      | Some Dir \<Rightarrow> mkdirKey t a (pre @ [s]) ss
      | None \<Rightarrow> mkdirKey (AList.update (a, pre @ [s]) Dir t) a (pre @ [s]) ss)"

definition mkdirp :: "fs \<Rightarrow> string \<Rightarrow> fs option" where
  "mkdirp t p = mkdirKey t (isAbsolute p) [] (segments p)"

text \<open>\<open>fs.writeFile\<close>: the parent must be a directory and the target must not be one.\<close>

definition writeFile :: "fs \<Rightarrow> string \<Rightarrow> string \<Rightarrow> fs option" where
  "writeFile t p c =
     (if trailingSep p then None
      else case lookupKey t (keyOf p) of
        Some Dir \<Rightarrow> None
      | _ \<Rightarrow>
        (case lookupKey t (isAbsolute p, butlast (segments p)) of
           Some Dir \<Rightarrow> Some (AList.update (keyOf p) (File c) t)
         | _ \<Rightarrow> None))"

text \<open>\<open>fs.unlink\<close>: removes a file; fails on anything else.\<close>

definition unlink :: "fs \<Rightarrow> string \<Rightarrow> fs option" where
  "unlink t p =
     (case lookupKey t (keyOf p) of
        Some (File c) \<Rightarrow> (if trailingSep p then None else Some (AList.delete (keyOf p) t))
      | _ \<Rightarrow> None)"

text \<open>\<open>fs.readdir\<close>: the names of the entries directly below a directory.\<close>

definition readdir :: "fs \<Rightarrow> string \<Rightarrow> string list option" where
  "readdir t p =
     (case lookupKey t (keyOf p) of
        Some Dir \<Rightarrow>
          Some (remdups (map (\<lambda>e. last (snd (fst e)))
            (filter (\<lambda>e. snd (fst e) \<noteq> [] \<and> (fst (fst e), butlast (snd (fst e))) = keyOf p) t)))
      | _ \<Rightarrow> None)"

section \<open>Regular expressions of the validator\<close>

text \<open>
  The patterns of the source are sequences of literals, single characters of a class
  and \<open>*\<close> or \<open>+\<close> runs of a class, with optional leading groups. A pattern is given as its alternatives in
  the order the backtracking matcher tries them (\<open>(?:X)?Y\<close> tries \<open>XY\<close> before
  \<open>Y\<close>); a run is greedy and gives characters back one at a time.
\<close>

definition isSpace :: "char \<Rightarrow> bool" where
  "isSpace c = (of_char c \<in> {9, 10, 11, 12, 13, 32, 160 :: nat})"

definition isDigit :: "char \<Rightarrow> bool" where
  "isDigit c = (48 \<le> (of_char c :: nat) \<and> (of_char c :: nat) \<le> 57)"

definition isWord :: "char \<Rightarrow> bool" where
  "isWord c =
     (isDigit c \<or> (65 \<le> (of_char c :: nat) \<and> (of_char c :: nat) \<le> 90) \<or> c = CHR ''_''
      \<or> (97 \<le> (of_char c :: nat) \<and> (of_char c :: nat) \<le> 122))"

datatype atom = Lit string | One "char \<Rightarrow> bool" | Star "char \<Rightarrow> bool" | Plus "char \<Rightarrow> bool"

fun firstSome :: "'a option list \<Rightarrow> 'a option" where
  "firstSome [] = None"
| "firstSome (None # xs) = firstSome xs"
| "firstSome (Some x # xs) = Some x"

text \<open>\<open>matchAtoms as s\<close>: what is left of \<open>s\<close> after the first way to match \<open>as\<close> at its start.\<close>

fun matchAtoms :: "atom list \<Rightarrow> string \<Rightarrow> string option" where
  "matchAtoms [] s = Some s"
| "matchAtoms (Lit l # as) s =
     (if prefix l s then matchAtoms as (drop (length l) s) else None)"
| "matchAtoms (One c # as) s =
     (case s of [] \<Rightarrow> None | x # xs \<Rightarrow> if c x then matchAtoms as xs else None)"
| "matchAtoms (Star c # as) s =
     firstSome (map (\<lambda>k. matchAtoms as (drop k s)) (rev [0 ..< Suc (length (takeWhile c s))]))"
| "matchAtoms (Plus c # as) s =
     firstSome (map (\<lambda>k. matchAtoms as (drop k s)) (rev [1 ..< Suc (length (takeWhile c s))]))"

definition matchAlts :: "atom list list \<Rightarrow> string \<Rightarrow> string option" where
  "matchAlts alts s = firstSome (map (\<lambda>a. matchAtoms a s) alts)"

text \<open>
  \<open>(text.match(pattern) || []).length\<close> for a global pattern: the matches are taken
  left to right, each search resuming where the last match ended.
\<close>

function countPattern :: "atom list list \<Rightarrow> string \<Rightarrow> nat" where
  "countPattern alts s =
     (if s = [] then 0
      else case matchAlts alts s of
        None \<Rightarrow> countPattern alts (tl s)
      | Some rest \<Rightarrow>
          (if length rest < length s then Suc (countPattern alts rest)
           else Suc (countPattern alts (tl s))))"
  by pat_completeness auto
termination
  by (relation "measure (\<lambda>(alts, s). length s)") auto

declare countPattern.simps [simp del]

text \<open>\<open>pattern.test(text)\<close>: a match starting somewhere in the text.\<close>

definition regexTest :: "atom list list \<Rightarrow> string \<Rightarrow> bool" where
  "regexTest alts s = list_ex (\<lambda>k. matchAlts alts (drop k s) \<noteq> None) [0 ..< Suc (length s)]"

text \<open>
  A pattern that starts with \<open>^\<close> under the \<open>m\<close> flag: a match starting at the
  beginning of the text or right after a line terminator. \<open>.\<close> is any character
  but a line terminator. Under the \<open>i\<close> flag the ASCII letters match in either
  case: the text is lowered and matched against the lowered pattern.
\<close>

definition isLineTerminator :: "char \<Rightarrow> bool" where
  "isLineTerminator c = (c = CHR 0x0A \<or> c = CHR 0x0D)"

definition anyChar :: "char \<Rightarrow> bool" where
  "anyChar c = (\<not> isLineTerminator c)"

definition regexTestLineStart :: "atom list list \<Rightarrow> string \<Rightarrow> bool" where
  "regexTestLineStart alts s =
     list_ex (\<lambda>k. (k = 0 \<or> isLineTerminator (s ! (k - 1))) \<and> matchAlts alts (drop k s) \<noteq> None)
       [0 ..< Suc (length s)]"

definition toLowerAscii :: "char \<Rightarrow> char" where
  "toLowerAscii c =
     (if 65 \<le> (of_char c :: nat) \<and> (of_char c :: nat) \<le> 90 then char_of ((of_char c :: nat) + 32) else c)"

definition fnPattern :: "atom list list" where
  "fnPattern =
     [[Lit ''pub'', Plus isSpace, Lit ''async'', Plus isSpace, Lit ''fn'', Plus isSpace, Plus isWord],
      [Lit ''pub'', Plus isSpace, Lit ''fn'', Plus isSpace, Plus isWord],
      [Lit ''async'', Plus isSpace, Lit ''fn'', Plus isSpace, Plus isWord],
      [Lit ''fn'', Plus isSpace, Plus isWord]]"

definition structPattern :: "atom list list" where
  "structPattern =
     [[Lit ''pub'', Plus isSpace, Lit ''struct'', Plus isSpace, Plus isWord],
      [Lit ''struct'', Plus isSpace, Plus isWord]]"

definition enumPattern :: "atom list list" where
  "enumPattern =
     [[Lit ''pub'', Plus isSpace, Lit ''enum'', Plus isSpace, Plus isWord],
      [Lit ''enum'', Plus isSpace, Plus isWord]]"

definition implPattern :: "atom list list" where
  "implPattern = [[Lit ''impl'', Plus isSpace]]"

definition lineCount :: "string \<Rightarrow> nat" where
  "lineCount text = length (splitOn (CHR 0x0A) text)"

section \<open>Double precision product with 0.7\<close>

text \<open>
  \<open>newLines < existingLines * 0.7\<close> is a comparison of doubles. The literal \<open>0.7\<close>
  is the double \<open>6305039478318694 / 2^53\<close>; a line count is an integer below
  \<open>2^53\<close> and so a double itself; the product is the exact product rounded to 53
  significant bits, ties to even. \<open>timesPoint7 L\<close> is that double scaled by \<open>2^53\<close>.
\<close>

fun bitLength :: "nat \<Rightarrow> nat" where
  "bitLength n = (if n = 0 then 0 else Suc (bitLength (n div 2)))"

declare bitLength.simps [simp del]

definition round53 :: "nat \<Rightarrow> nat" where
  "round53 N =
     (if bitLength N \<le> 53 then N
      else let s = bitLength N - 53; q = N div 2 ^ s; r = N mod 2 ^ s
        in if 2 ^ s < 2 * r \<or> (2 * r = 2 ^ s \<and> odd q) then Suc q * 2 ^ s else q * 2 ^ s)"

definition timesPoint7 :: "nat \<Rightarrow> nat" where
  "timesPoint7 L = round53 (L * 6305039478318694)"

definition belowSeventyPercent :: "nat \<Rightarrow> nat \<Rightarrow> bool" where
  "belowSeventyPercent newLines existingLines = (newLines * 2 ^ 53 < timesPoint7 existingLines)"

section \<open>Fix Safety Validator (smartBuild.js)\<close>

text \<open>
  A proposal as the advisor's JSON gives it. A missing \<open>path\<close> or \<open>content\<close> is
  \<open>None\<close>; the empty string is falsy as well. Proposals whose fields are not texts are
  outside this model.
\<close>

record fix_proposal =
  action :: string
  path :: "string option"
  content :: "string option"

datatype simplification =
    FunctionsReduced nat nat
  | StructsReduced nat nat
  | EnumsReduced nat nat
  | ImplsReduced nat nat
  | CodeReduced nat nat

datatype safety = Safe | Unsafe simplification

definition regressionGuard :: "string \<Rightarrow> string \<Rightarrow> safety" where
  "regressionGuard existingContent newContent =
     (let existingFns = countPattern fnPattern existingContent;
          newFns = countPattern fnPattern newContent;
          existingStructs = countPattern structPattern existingContent;
          newStructs = countPattern structPattern newContent;
          existingEnums = countPattern enumPattern existingContent;
          newEnums = countPattern enumPattern newContent;
          existingImpls = countPattern implPattern existingContent;
          newImpls = countPattern implPattern newContent;
          existingLines = lineCount existingContent;
          newLines = lineCount newContent
      in if newFns < existingFns then Unsafe (FunctionsReduced existingFns newFns)
         else if newStructs < existingStructs then Unsafe (StructsReduced existingStructs newStructs)
         else if newEnums < existingEnums then Unsafe (EnumsReduced existingEnums newEnums)
         else if newImpls < existingImpls then Unsafe (ImplsReduced existingImpls newImpls)
         else if 10 < existingLines \<and> belowSeventyPercent newLines existingLines
           then Unsafe (CodeReduced existingLines newLines)
         else Safe)"

text \<open>
  \<open>validateRsFixSafety\<close>: the whole body is inside \<open>try\<close>, and the \<open>catch\<close>
  answers \<open>safe: true\<close>; so does a failed read of the existing file, and so does a
  proposal without a path or content (a \<open>TypeError\<close> inside the \<open>try\<close>).
\<close>

definition validateRsFixSafety :: "fs \<Rightarrow> string \<Rightarrow> fix_proposal \<Rightarrow> safety" where
  "validateRsFixSafety t projectDir fx =
     (case path fx of
        None \<Rightarrow> Safe
      | Some p \<Rightarrow>
        (case readFile t (pathJoin projectDir p) of
           None \<Rightarrow> Safe
         | Some existingContent \<Rightarrow>
           (case content fx of
              None \<Rightarrow> Safe
            | Some newContent \<Rightarrow> regressionGuard existingContent newContent)))"

datatype reject_reason =
    MissingPathOrContent
  | Iteration0ConfigOnly string
  | CannotCreateRs
  | CannotDeleteRs
  | Simplified simplification
  | Iteration0RsForbidden
  | FileWriteFailed

datatype log_entry = REJECTED string | APPLIED string string | ERROR string

text \<open>
  The state of the loop over the proposals: the source tree, and the three lists
  the function returns. A rejected entry \<open>{...fix, reason}\<close> is the pair of the
  proposal and the reason.
\<close>

record safe_result =
  tree :: fs
  applied :: "fix_proposal list"
  rejected :: "(fix_proposal \<times> reject_reason) list"
  safetyLog :: "log_entry list"

definition reject :: "safe_result \<Rightarrow> fix_proposal \<Rightarrow> reject_reason \<Rightarrow> log_entry list \<Rightarrow> safe_result" where
  "reject st fx why entries =
     st\<lparr> rejected := rejected st @ [(fx, why)], safetyLog := safetyLog st @ entries \<rparr>"

text \<open>
  The checks on a compiled-source proposal after the first build: \<open>create\<close> on an
  existing path becomes \<open>update\<close> (the proposal object is changed in place),
  \<open>create\<close> elsewhere and \<open>delete\<close> are refused, the rest goes to the regression guard.
\<close>

definition rsChecks :: "fs \<Rightarrow> string \<Rightarrow> string \<Rightarrow> fix_proposal \<Rightarrow> fix_proposal \<times> reject_reason option" where
  "rsChecks t projectDir p fx =
     (if action fx = ''create'' \<and> \<not> fsAccess t (pathJoin projectDir p) then (fx, Some CannotCreateRs)
      else let fx' = (if action fx = ''create'' then fx\<lparr> action := ''update'' \<rparr> else fx)
        in if action fx' = ''delete'' then (fx', Some CannotDeleteRs)
           else case validateRsFixSafety t projectDir fx' of
             Unsafe why \<Rightarrow> (fx', Some (Simplified why))
           | Safe \<Rightarrow> (fx', None))"

text \<open>Writing an accepted proposal: create the parent directories, then the file.\<close>

definition applyWrite :: "string \<Rightarrow> safe_result \<Rightarrow> string \<Rightarrow> string \<Rightarrow> fix_proposal \<Rightarrow> safe_result" where
  "applyWrite projectDir st p c fx =
     (let filePath = pathJoin projectDir p in
      case mkdirp (tree st) (dirname filePath) of
        None \<Rightarrow> reject st fx FileWriteFailed [ERROR p]
      | Some t1 \<Rightarrow>
        (case writeFile t1 filePath c of
           None \<Rightarrow> reject (st\<lparr> tree := t1 \<rparr>) fx FileWriteFailed [ERROR p]
         | Some t2 \<Rightarrow>
             st\<lparr> tree := t2, applied := applied st @ [fx],
                 safetyLog := safetyLog st @ [APPLIED (action fx) p] \<rparr>))"

definition isConfigExt :: "string \<Rightarrow> bool" where
  "isConfigExt ext = (ext = ''.toml'' \<or> ext = ''.json'' \<or> ext = ''.lock'')"

text \<open>One turn of the loop of \<open>applySafeFixes\<close>.\<close>

definition applySafeFix :: "string \<Rightarrow> nat \<Rightarrow> safe_result \<Rightarrow> fix_proposal \<Rightarrow> safe_result" where
  "applySafeFix projectDir iteration st fx =
     (case (path fx, content fx) of
        (Some p, Some c) \<Rightarrow>
          (if p = [] \<or> c = [] then reject st fx MissingPathOrContent []
           else let ext = extname p; isRsFile = (ext = ''.rs'') in
             if iteration = 0 \<and> \<not> isConfigExt ext
               then reject st fx (Iteration0ConfigOnly ext) [REJECTED p]
             else case (if 0 < iteration \<and> isRsFile then rsChecks (tree st) projectDir p fx
                        else (fx, None)) of
               (fx', Some why) \<Rightarrow> reject st fx' why [REJECTED p]
             | (fx', None) \<Rightarrow>
                 (if iteration = 0 \<and> isRsFile then reject st fx' Iteration0RsForbidden [REJECTED p]
                  else applyWrite projectDir st p c fx'))
      | _ \<Rightarrow> reject st fx MissingPathOrContent [])"

definition applySafeFixes :: "fs \<Rightarrow> string \<Rightarrow> fix_proposal list \<Rightarrow> nat \<Rightarrow> safe_result" where
  "applySafeFixes t projectDir fixes iteration =
     foldl (applySafeFix projectDir iteration)
       \<lparr> tree = t, applied = [], rejected = [], safetyLog = [] \<rparr> fixes"

section \<open>Structure verification (ai.js)\<close>

text \<open>
  \<open>applyFixes\<close>: the whole loop runs inside one \<open>try\<close>; the first failing
  operation ends it with \<open>success: false\<close>, keeping what was done before. A
  \<open>create\<close> of an existing path is skipped when \<open>skipExisting\<close> is set.
\<close>

record apply_result =
  ar_tree :: fs
  ar_success :: bool
  appliedFixes :: nat
  skippedFiles :: "string list"

fun applyFixesLoop ::
  "string \<Rightarrow> bool \<Rightarrow> fs \<Rightarrow> nat \<Rightarrow> string list \<Rightarrow> fix_proposal list \<Rightarrow> apply_result" where
  "applyFixesLoop projectDir skipExisting t n skipped [] =
     \<lparr> ar_tree = t, ar_success = True, appliedFixes = n, skippedFiles = skipped \<rparr>"
| "applyFixesLoop projectDir skipExisting t n skipped (fx # rest) =
     (let failed = (\<lambda>t'. \<lparr> ar_tree = t', ar_success = False, appliedFixes = n, skippedFiles = skipped \<rparr>)
      in if action fx = ''create'' \<or> action fx = ''update'' then
        (case path fx of
           None \<Rightarrow> failed t
         | Some p \<Rightarrow>
           (let filePath = pathJoin projectDir p in
            if skipExisting \<and> action fx = ''create'' \<and> fsAccess t filePath
              then applyFixesLoop projectDir skipExisting t n (skipped @ [p]) rest
            else case mkdirp t (dirname filePath) of
              None \<Rightarrow> failed t
            | Some t1 \<Rightarrow>
              (case content fx of
                 None \<Rightarrow> failed t1
               | Some c \<Rightarrow>
                 (case writeFile t1 filePath c of
                    None \<Rightarrow> failed t1
                  | Some t2 \<Rightarrow> applyFixesLoop projectDir skipExisting t2 (Suc n) skipped rest))))
      else if action fx = ''delete'' then
        (case path fx of
           None \<Rightarrow> failed t
         | Some p \<Rightarrow>
           (case unlink t (pathJoin projectDir p) of
              None \<Rightarrow> failed t
            | Some t1 \<Rightarrow> applyFixesLoop projectDir skipExisting t1 (Suc n) skipped rest))
      else applyFixesLoop projectDir skipExisting t n skipped rest)"

definition applyFixes :: "fs \<Rightarrow> string \<Rightarrow> fix_proposal list \<Rightarrow> bool \<Rightarrow> apply_result" where
  "applyFixes t projectDir fixes skipExisting = applyFixesLoop projectDir skipExisting t 0 [] fixes"

text \<open>
  \<open>verifyAndFixStructure\<close>, from the advisor's answer on: proposals whose path
  ends in \<open>.rs\<close> are filtered out, the rest is applied with \<open>skipExisting\<close>.
  The reorganisation of the tree before the call and the advisor's parsed answer are
  parameters; a failed call (\<open>None\<close>) gives \<open>success: false\<close>.
\<close>

definition isRsPath :: "fix_proposal \<Rightarrow> bool" where
  "isRsPath fx = (case path fx of None \<Rightarrow> False | Some p \<Rightarrow> p \<noteq> [] \<and> endsWith p ''.rs'')"

record verify_result =
  vr_success :: bool
  vr_fixes :: "fix_proposal list"
  autoFixed :: bool

definition verifyAndFixStructure ::
  "(fs \<Rightarrow> fs) \<Rightarrow> (fs \<Rightarrow> fix_proposal list option) \<Rightarrow> fs \<Rightarrow> string \<Rightarrow> verify_result \<times> fs" where
  "verifyAndFixStructure reorganize structureAdvisor t projectDir =
     (let t0 = reorganize t in
      case structureAdvisor t0 of
        None \<Rightarrow> (\<lparr> vr_success = False, vr_fixes = [], autoFixed = False \<rparr>, t0)
      | Some proposed \<Rightarrow>
        (let fixes = filter (\<lambda>fx. \<not> isRsPath fx) proposed in
         if fixes \<noteq> [] then
           (let r = applyFixes t0 projectDir fixes True
            in (\<lparr> vr_success = True, vr_fixes = fixes, autoFixed = ar_success r \<rparr>, ar_tree r))
         else (\<lparr> vr_success = True, vr_fixes = fixes, autoFixed = False \<rparr>, t0)))"

section \<open>Sandbox executor and the checks after a run (docker.js, smartBuild.js)\<close>

record build_logs =
  stdout :: string
  stderr :: string

record build_result =
  br_success :: bool
  exitCode :: "int option"
  logs :: build_logs
  br_error :: "string option"

text \<open>
  What the container runtime answers: the container exited with a status code, or
  creating, starting or waiting for it raised (the timeout included). Both come with
  the output collected so far.
\<close>

datatype container_run = Exited int string string | Raised string string string

definition executeAnchorBuild ::
  "(host_config \<Rightarrow> nat \<Rightarrow> fs \<Rightarrow> container_run \<times> fs) \<Rightarrow> docker_config \<Rightarrow> nat \<Rightarrow> fs \<Rightarrow> build_result \<times> fs" where
  "executeAnchorBuild container cfg iteration t =
     (case container (hostConfig cfg) iteration t of
        (Exited StatusCode out err, t') \<Rightarrow>
          (\<lparr> br_success = (StatusCode = 0), exitCode = Some StatusCode,
             logs = \<lparr> stdout = out, stderr = err \<rparr>, br_error = None \<rparr>, t')
      | (Raised message out err, t') \<Rightarrow>
          (\<lparr> br_success = False, exitCode = None,
             logs = \<lparr> stdout = out, stderr = err @ [CHR 0x0A, CHR 0x0A] @ ''Fatal error: '' @ message \<rparr>,
             br_error = Some message \<rparr>, t'))"

definition pathJoin3 :: "string \<Rightarrow> string \<Rightarrow> string \<Rightarrow> string" where
  "pathJoin3 a b c =
     (let joined = joinWith ''/'' (filter (\<lambda>x. x \<noteq> []) [a, b, c])
      in if joined = [] then ''.'' else normalize joined)"

definition verifyBuildArtifacts :: "fs \<Rightarrow> string \<Rightarrow> bool" where
  "verifyBuildArtifacts t outputDir =
     (case readdir t (pathJoin3 outputDir ''target'' ''deploy'') of
        None \<Rightarrow> False
      | Some files \<Rightarrow> list_ex (\<lambda>f. endsWith f ''.so'') files)"

definition rustcErrorCode :: "atom list list" where
  "rustcErrorCode = [[Lit ''error[E'', Plus isDigit, Lit '']'']]"

definition abortingDueTo :: "atom list list" where
  "abortingDueTo = [[Lit ''error:'', Star anyChar, Lit ''aborting due to'']]"

definition errorCargoBuild :: "atom list list" where
  "errorCargoBuild = [[Lit ''error'', Star anyChar, Lit ''cargo'', One anyChar, Lit ''build'']]"

definition detectBuildErrorsInLogs :: "build_logs \<Rightarrow> bool" where
  "detectBuildErrorsInLogs l =
     (let combined = stdout l @ [CHR 0x0A] @ stderr l
      in regexTest rustcErrorCode combined
         \<or> regexTestLineStart abortingDueTo combined
         \<or> regexTest errorCargoBuild (map toLowerAscii combined)
         \<or> includesStr combined ''Failed to obtain package metadata''
         \<or> includesStr combined ''can't find library'')"

text \<open>The check after a run that reported success (the dash of the message is U+2014).\<close>

definition postCheck :: "fs \<Rightarrow> string \<Rightarrow> build_result \<Rightarrow> build_result" where
  "postCheck t outputDir r =
     (if br_success r then
        (let hasArtifacts = verifyBuildArtifacts t outputDir;
             hasErrorsInLogs = detectBuildErrorsInLogs (logs r)
         in if \<not> hasArtifacts \<or> hasErrorsInLogs then
              r\<lparr> br_success := False,
                 br_error := Some (if \<not> hasArtifacts
                   then ''Build produced no .so artifacts '' @ [CHR 0xE2, CHR 0x80, CHR 0x94]
                        @ '' compilation likely failed''
                   else ''Build logs contain errors despite exit code 0'') \<rparr>
            else r)
      else r)"

section \<open>The advisor's answer to a failed build (ai.js, smartBuild.js)\<close>

text \<open>
  What the advisor call gives after its retries: an error, or the final text with the
  proposals parsed out of it. \<open>analyzeAndFixBuildFailure\<close> reads the cannot-fix
  verdict off the text and drops the proposals when it is there.
\<close>

datatype advisor_reply = CallFailed string | Answered string "fix_proposal list"

record fix_result =
  fr_success :: bool
  fr_error :: string
  analysis :: string
  fr_fixes :: "fix_proposal list"
  fr_cannotFix :: bool

definition cannotFixPattern :: "atom list list" where
  "cannotFixPattern =
     [[Lit (CHR 0x22 # ''cannotfix'' @ [CHR 0x22]), Star isSpace, Lit '':'', Star isSpace, Lit ''true'']]"

definition analyzeAndFixBuildFailure :: "advisor_reply \<Rightarrow> fix_result" where
  "analyzeAndFixBuildFailure reply =
     (case reply of
        CallFailed message \<Rightarrow>
          \<lparr> fr_success = False, fr_error = message, analysis = [], fr_fixes = [], fr_cannotFix = False \<rparr>
      | Answered text fixes \<Rightarrow>
          (let cannotFix = regexTest cannotFixPattern (map toLowerAscii text)
           in \<lparr> fr_success = True, fr_error = [], analysis = text,
                fr_fixes = (if cannotFix then [] else fixes), fr_cannotFix = cannotFix \<rparr>))"

text \<open>
  \<open>extractCannotFixReason\<close>: the \<open>analysis\<close> member of the JSON block of the
  text when there is one (a parameter: JSON is not modelled); else the text without
  its fenced blocks, trimmed, cut to 200 characters; else a fixed sentence.
\<close>

definition fence :: string where
  "fence = [CHR 0x60, CHR 0x60, CHR 0x60]"

fun findFence :: "string \<Rightarrow> nat option" where
  "findFence [] = None"
| "findFence (c # cs) =
     (if prefix fence (c # cs) then Some 0
      else case findFence cs of None \<Rightarrow> None | Some k \<Rightarrow> Some (Suc k))"

function stripFences :: "string \<Rightarrow> string" where
  "stripFences s =
     (case findFence s of
        None \<Rightarrow> s
      | Some a \<Rightarrow>
        (case findFence (drop (a + 3) s) of
           None \<Rightarrow> s
         | Some b \<Rightarrow> take a s @ stripFences (drop (a + 3 + b + 3) s)))"
  by pat_completeness auto
termination
proof (relation "measure length")
  show "wf (measure length)" by simp
next
  fix s :: string and a b :: nat
  assume "findFence s = Some a"
  then have "s \<noteq> []" by (cases s) auto
  then show "(drop (a + 3 + b + 3) s, s) \<in> measure length" by simp
qed

declare stripFences.simps [simp del]

definition trim :: "string \<Rightarrow> string" where
  "trim s = rev (dropWhile isSpace (rev (dropWhile isSpace s)))"

definition extractCannotFixReason :: "(string \<Rightarrow> string option) \<Rightarrow> string \<Rightarrow> string" where
  "extractCannotFixReason jsonAnalysis text =
     (case jsonAnalysis text of
        Some a \<Rightarrow> a
      | None \<Rightarrow>
        (let clean = trim (stripFences text)
         in if take 200 clean \<noteq> [] then take 200 clean
            else ''AI determined this issue cannot be fixed without simplifying the code''))"

section \<open>Build Orchestrator (smartBuild.js)\<close>

text \<open>
  The collaborators of the loop are parameters: whether the static analysis completes,
  the reorganisation and the advisor's answer of the structure phase, the advisor's
  answer to a failed build, the container runtime, and the two readings of JSON out of
  an advisor text. Every call gets the iteration and the state it can observe, so
  that answers may differ from call to call. Progress events and timestamps are not
  part of the result and are left out.
\<close>

record env =
  analyzer :: "fs \<Rightarrow> bool"
  reorganizer :: "fs \<Rightarrow> fs"
  structureAdvisor :: "fs \<Rightarrow> fix_proposal list option"
  advisor :: "nat \<Rightarrow> fs \<Rightarrow> build_result \<Rightarrow> (string option list \<times> string) list \<Rightarrow> advisor_reply"
  container :: "host_config \<Rightarrow> nat \<Rightarrow> fs \<Rightarrow> container_run \<times> fs"
  jsonAnalysis :: "string \<Rightarrow> string option"
  shortAnalysis :: "string \<Rightarrow> string"

datatype details =
    NoDetails
  | ErrorDetails string
  | ReasonDetails string
  | ExitCodeDetails "int option"
  | FixDetails "fix_proposal list" "(fix_proposal \<times> reject_reason) list"

record phase_record =
  phase :: string
  iteration :: nat
  result :: string
  details :: details

record ai_analysis =
  ai_iteration :: nat
  ai_analysis :: string
  ai_fixes :: "fix_proposal list"
  ai_cannotFix :: bool

record smart_build_result =
  success :: bool
  iterations :: nat
  phases :: "phase_record list"
  aiAnalyses :: "ai_analysis list"
  finalBuild :: "build_result option"
  cannotFix :: bool
  cannotFixReason :: "string option"

text \<open>
  The variables of \<open>smartBuild\<close> between two turns of its loop, with the file system
  and, as a ghost field, the iterations at which the sandbox executor was invoked.
\<close>

record loop_state =
  ls_tree :: fs
  ls_phases :: "phase_record list"
  ls_aiAnalyses :: "ai_analysis list"
  previousFixes :: "(string option list \<times> string) list"
  lastBuildResult :: "build_result option"
  sandboxRuns :: "nat list"

datatype step_outcome = Continue loop_state | Return smart_build_result loop_state | TypeError

definition pushPhase :: "string \<Rightarrow> nat \<Rightarrow> string \<Rightarrow> details \<Rightarrow> loop_state \<Rightarrow> loop_state" where
  "pushPhase ph i res d st =
     st\<lparr> ls_phases := ls_phases st @ [\<lparr> phase = ph, iteration = i, result = res, details = d \<rparr>] \<rparr>"

text \<open>Iteration 0, first half: static analysis, then structure verification.\<close>

definition analyzingPhase :: "env \<Rightarrow> loop_state \<Rightarrow> loop_state" where
  "analyzingPhase e st =
     pushPhase ''analyzing'' 0 (if analyzer e (ls_tree st) then ''success'' else ''failed'') NoDetails st"

definition verifyingPhase :: "env \<Rightarrow> string \<Rightarrow> loop_state \<Rightarrow> loop_state" where
  "verifyingPhase e projectDir st =
     (case verifyAndFixStructure (reorganizer e) (structureAdvisor e) (ls_tree st) projectDir of
        (verifyResult, t') \<Rightarrow>
          pushPhase ''verifying'' 0 (if vr_success verifyResult then ''fixed'' else ''failed'') NoDetails
            (st\<lparr> ls_tree := t' \<rparr>))"

text \<open>
  Iteration 1 and later, first half: ask the advisor. The three ways out are to skip
  the rebuild (\<open>continue\<close>), to return the cannot-fix result, or to go on to the build.
\<close>

datatype fixing_outcome = Skip loop_state | Decline smart_build_result loop_state | Build loop_state

definition previousFixEntry :: "env \<Rightarrow> string \<Rightarrow> fix_proposal list \<Rightarrow> string option list \<times> string" where
  "previousFixEntry e text touched =
     (map path touched,
      if shortAnalysis e text \<noteq> [] then shortAnalysis e text
      else joinWith '', '' (map (\<lambda>f. action f @ '' '' @ (case path f of None \<Rightarrow> [] | Some p \<Rightarrow> p)) touched))"

definition fixingPhase :: "env \<Rightarrow> string \<Rightarrow> nat \<Rightarrow> build_result \<Rightarrow> loop_state \<Rightarrow> fixing_outcome" where
  "fixingPhase e projectDir i lastBuild st =
     (let fixResult = analyzeAndFixBuildFailure (advisor e i (ls_tree st) lastBuild (previousFixes st))
      in if \<not> fr_success fixResult then
           Skip (pushPhase ''fixing'' i ''failed'' (ErrorDetails (fr_error fixResult)) st)
         else if fr_cannotFix fixResult then
           (let reason = extractCannotFixReason (jsonAnalysis e) (analysis fixResult);
                st' = (pushPhase ''fixing'' i ''cannot_fix'' (ReasonDetails reason) st)
                  \<lparr> ls_aiAnalyses := ls_aiAnalyses st @
                      [\<lparr> ai_iteration = i, ai_analysis = analysis fixResult, ai_fixes = [],
                         ai_cannotFix = True \<rparr>] \<rparr>
            in Decline
                 \<lparr> success = False, iterations = i + 1, phases = ls_phases st',
                   aiAnalyses = ls_aiAnalyses st', finalBuild = lastBuildResult st,
                   cannotFix = True, cannotFixReason = Some reason \<rparr> st')
         else if fr_fixes fixResult = [] then
           Build ((pushPhase ''fixing'' i ''no_fixes'' NoDetails st)
             \<lparr> ls_aiAnalyses := ls_aiAnalyses st @
                 [\<lparr> ai_iteration = i, ai_analysis = analysis fixResult, ai_fixes = [],
                    ai_cannotFix = False \<rparr>] \<rparr>)
         else
           (let safeResult = applySafeFixes (ls_tree st) projectDir (fr_fixes fixResult) i
            in Build ((pushPhase ''fixing'' i ''fixed''
                        (FixDetails (applied safeResult) (rejected safeResult)) st)
                 \<lparr> ls_tree := tree safeResult,
                   ls_aiAnalyses := ls_aiAnalyses st @
                     [\<lparr> ai_iteration = i, ai_analysis = analysis fixResult,
                        ai_fixes = fr_fixes fixResult, ai_cannotFix = False \<rparr>],
                   previousFixes := previousFixes st @
                     [previousFixEntry e (analysis fixResult) (applied safeResult)] \<rparr>)))"

text \<open>
  Second half of every iteration that reaches it: create the output directory
  (errors ignored), run the sandbox, record the phase, check the artifacts and the
  log, and return on success.
\<close>

definition ensureDir :: "fs \<Rightarrow> string \<Rightarrow> fs" where
  "ensureDir t p = (case mkdirp t p of None \<Rightarrow> t | Some t' \<Rightarrow> t')"

definition buildingPhase ::
  "env \<Rightarrow> docker_config \<Rightarrow> string \<Rightarrow> nat \<Rightarrow> loop_state \<Rightarrow> step_outcome" where
  "buildingPhase e cfg outputDir i st =
     (case executeAnchorBuild (container e) cfg i (ensureDir (ls_tree st) outputDir) of
        (built, t1) \<Rightarrow>
          (let st1 = (pushPhase ''building'' i (if br_success built then ''success'' else ''failed'')
                        (ExitCodeDetails (exitCode built)) st)
                     \<lparr> ls_tree := t1, sandboxRuns := sandboxRuns st @ [i] \<rparr>;
               checked = postCheck t1 outputDir built;
               st2 = st1\<lparr> lastBuildResult := Some checked \<rparr>
           in if br_success checked then
                Return \<lparr> success = True, iterations = i + 1, phases = ls_phases st2,
                         aiAnalyses = ls_aiAnalyses st2, finalBuild = Some checked,
                         cannotFix = False, cannotFixReason = None \<rparr> st2
              else Continue st2))"

text \<open>What holds of the state in which iteration \<open>i\<close> starts.\<close>

definition reachableInv :: "nat \<Rightarrow> loop_state \<Rightarrow> bool" where
  "reachableInv i st =
     (list_all (\<lambda>k. k < i) (sandboxRuns st)
      \<and> (i = 0 \<or> lastBuildResult st \<noteq> None)
      \<and> list_all (\<lambda>p. result p \<noteq> ''cannot_fix'' \<and> iteration p < i) (ls_phases st))"

text \<open>
  One turn of the loop. After the first turn \<open>lastBuildResult\<close> is never null; the
  branch for null is the \<open>TypeError\<close> the source would raise reading its
  \<open>error\<close> field.
\<close>

definition iterationStep ::
  "env \<Rightarrow> docker_config \<Rightarrow> string \<Rightarrow> string \<Rightarrow> nat \<Rightarrow> loop_state \<Rightarrow> step_outcome" where
  "iterationStep e cfg projectDir outputDir i st =
     (if i = 0 then buildingPhase e cfg outputDir i (verifyingPhase e projectDir (analyzingPhase e st))
      else case lastBuildResult st of
        None \<Rightarrow> TypeError
      | Some lastBuild \<Rightarrow>
        (case fixingPhase e projectDir i lastBuild st of
           Skip st' \<Rightarrow> Continue st'
         | Decline r st' \<Rightarrow> Return r st'
         | Build st' \<Rightarrow> buildingPhase e cfg outputDir i st'))"

definition exhausted :: "nat \<Rightarrow> loop_state \<Rightarrow> smart_build_result" where
  "exhausted MAX_ITERATIONS st =
     \<lparr> success = False, iterations = MAX_ITERATIONS, phases = ls_phases st,
       aiAnalyses = ls_aiAnalyses st, finalBuild = lastBuildResult st, cannotFix = True,
       cannotFixReason = Some ''Exhausted all retry attempts without successful compilation'' \<rparr>"

text \<open>
  The \<open>for\<close> loop from iteration \<open>i\<close> on. The result comes with the final state
  (for the ghost field); \<open>None\<close> is the \<open>TypeError\<close> above.
\<close>

function smartBuildFrom ::
  "env \<Rightarrow> docker_config \<Rightarrow> string \<Rightarrow> string \<Rightarrow> nat \<Rightarrow> nat \<Rightarrow> loop_state
     \<Rightarrow> (smart_build_result \<times> loop_state) option" where
  "smartBuildFrom e cfg projectDir outputDir MAX_ITERATIONS i st =
     (if i < MAX_ITERATIONS then
        (case iterationStep e cfg projectDir outputDir i st of
           Continue st' \<Rightarrow> smartBuildFrom e cfg projectDir outputDir MAX_ITERATIONS (Suc i) st'
         | Return r st' \<Rightarrow> Some (r, st')
         | TypeError \<Rightarrow> None)
      else Some (exhausted MAX_ITERATIONS st, st))"
  by pat_completeness auto
termination
  by (relation "measure (\<lambda>(e, cfg, projectDir, outputDir, MAX_ITERATIONS, i, st). MAX_ITERATIONS - i)") auto

declare smartBuildFrom.simps [simp del]

definition initialState :: "fs \<Rightarrow> loop_state" where
  "initialState t =
     \<lparr> ls_tree = t, ls_phases = [], ls_aiAnalyses = [], previousFixes = [],
       lastBuildResult = None, sandboxRuns = [] \<rparr>"

definition smartBuild ::
  "env \<Rightarrow> docker_config \<Rightarrow> string \<Rightarrow> string \<Rightarrow> nat \<Rightarrow> fs \<Rightarrow> (smart_build_result \<times> loop_state) option" where
  "smartBuild e cfg projectDir outputDir MAX_ITERATIONS t =
     smartBuildFrom e cfg projectDir outputDir MAX_ITERATIONS 0 (initialState t)"

text \<open>
  The state in which iteration \<open>i\<close> starts, when the loop gets there: every earlier
  iteration ended with \<open>continue\<close> or a failed build.
\<close>

fun stateAt ::
  "env \<Rightarrow> docker_config \<Rightarrow> string \<Rightarrow> string \<Rightarrow> nat \<Rightarrow> fs \<Rightarrow> nat \<Rightarrow> loop_state option" where
  "stateAt e cfg projectDir outputDir MAX_ITERATIONS t 0 = Some (initialState t)"
| "stateAt e cfg projectDir outputDir MAX_ITERATIONS t (Suc i) =
     (case stateAt e cfg projectDir outputDir MAX_ITERATIONS t i of
        None \<Rightarrow> None
      | Some st \<Rightarrow>
        (if i < MAX_ITERATIONS then
           (case iterationStep e cfg projectDir outputDir i st of
              Continue st' \<Rightarrow> Some st'
            | _ \<Rightarrow> None)
         else None))"

section \<open>Secret Extractor and Purger (routes/agent.js)\<close>

text \<open>
  \<open>s.replace(pattern, replacement)\<close> with a text pattern: the first occurrence only.
\<close>

fun replaceFirst :: "string \<Rightarrow> string \<Rightarrow> string \<Rightarrow> string" where
  "replaceFirst pat rep [] = (if pat = [] then rep else [])"
| "replaceFirst pat rep (c # cs) =
     (if prefix pat (c # cs) then rep @ drop (length pat) (c # cs)
      else c # replaceFirst pat rep cs)"

text \<open>
  A keypair file holds a JSON array of numbers. \<open>jsonByteArray\<close> is
  \<open>JSON.parse\<close> on the texts that are arrays of non-negative integer literals (no
  leading zeros, JSON white space between the tokens); every other text is \<open>None\<close>:
  either \<open>JSON.parse\<close> raises on it, or the value is not such an array. Arrays with
  negative, fractional or exponent literals are outside this model.
\<close>

datatype token = LBracket | RBracket | Comma | Num nat | Junk

definition isJsonSpace :: "char \<Rightarrow> bool" where
  "isJsonSpace c = (c = CHR '' '' \<or> c = CHR 0x09 \<or> c = CHR 0x0A \<or> c = CHR 0x0D)"

definition decimal :: "string \<Rightarrow> nat" where
  "decimal ds = foldl (\<lambda>n c. 10 * n + ((of_char c :: nat) - 48)) 0 ds"

function tokens :: "string \<Rightarrow> token list" where
  "tokens [] = []"
| "tokens (c # cs) =
     (if isJsonSpace c then tokens cs
      else if c = CHR ''['' then LBracket # tokens cs
      else if c = CHR '']'' then RBracket # tokens cs
      else if c = CHR '','' then Comma # tokens cs
      else if isDigit c then
        (if c = CHR ''0'' \<and> takeWhile isDigit cs \<noteq> [] then [Junk]
         else Num (decimal (c # takeWhile isDigit cs)) # tokens (dropWhile isDigit cs))
      else [Junk])"
  by pat_completeness auto
termination
  by (relation "measure length") (auto simp: length_dropWhile_le le_imp_less_Suc)

declare tokens.simps [simp del]

fun elements :: "nat list \<Rightarrow> token list \<Rightarrow> nat list option" where
  "elements acc [RBracket] = Some acc"
| "elements acc (Comma # Num n # rest) = elements (acc @ [n]) rest"
| "elements acc ts = None"

definition jsonByteArray :: "string \<Rightarrow> nat list option" where
  "jsonByteArray text =
     (case tokens text of
        [LBracket, RBracket] \<Rightarrow> Some []
      | LBracket # Num n # rest \<Rightarrow> elements [n] rest
      | _ \<Rightarrow> None)"

text \<open>
  \<open>Keypair.fromSecretKey(new Uint8Array(raw))\<close>: the numbers are taken modulo 256;
  the key must have 64 bytes, and its last 32 bytes must be the public key of its
  first 32. The curve's public key function and the base-58 printer are parameters.
\<close>

record keypair_record =
  kp_name :: string
  filename :: string
  pubkey :: string
  secret :: "nat list"

definition fromSecretKey :: "(nat list \<Rightarrow> nat list) \<Rightarrow> nat list \<Rightarrow> nat list option" where
  "fromSecretKey publicKeyOf raw =
     (let bytes = map (\<lambda>n. n mod 256) raw
      in if length bytes \<noteq> 64 then None
         else if publicKeyOf (take 32 bytes) \<noteq> drop 32 bytes then None
         else Some (drop 32 bytes))"

text \<open>One directory entry: the record it gives, if any. A failed read or parse is skipped.\<close>

definition keypairOfFile ::
  "(nat list \<Rightarrow> nat list) \<Rightarrow> (nat list \<Rightarrow> string) \<Rightarrow> fs \<Rightarrow> string \<Rightarrow> string \<Rightarrow> keypair_record list" where
  "keypairOfFile publicKeyOf toBase58 t deployDir file =
     (if endsWith file ''-keypair.json'' then
        (case readFile t (pathJoin deployDir file) of
           None \<Rightarrow> []
         | Some text \<Rightarrow>
           (case jsonByteArray text of
              None \<Rightarrow> []
            | Some raw \<Rightarrow>
              (case fromSecretKey publicKeyOf raw of
                 None \<Rightarrow> []
               | Some pk \<Rightarrow>
                   [\<lparr> kp_name = replaceFirst ''-keypair.json'' [] file, filename = file,
                      pubkey = toBase58 pk, secret = raw \<rparr>])))
      else [])"

definition extractKeypairs ::
  "(nat list \<Rightarrow> nat list) \<Rightarrow> (nat list \<Rightarrow> string) \<Rightarrow> fs \<Rightarrow> string \<Rightarrow> keypair_record list" where
  "extractKeypairs publicKeyOf toBase58 t outputDir =
     (let deployDir = pathJoin3 outputDir ''target'' ''deploy''
      in case readdir t deployDir of
        None \<Rightarrow> []
      | Some files \<Rightarrow> concat (map (keypairOfFile publicKeyOf toBase58 t deployDir) files))"

text \<open>\<open>deleteKeypairFiles\<close>: unlink each record's file; a failed unlink is ignored.\<close>

definition unlinkQuietly :: "string \<Rightarrow> fs \<Rightarrow> keypair_record \<Rightarrow> fs" where
  "unlinkQuietly deployDir t kp =
     (case unlink t (pathJoin deployDir (filename kp)) of None \<Rightarrow> t | Some t' \<Rightarrow> t')"

definition deleteKeypairFiles :: "fs \<Rightarrow> string \<Rightarrow> keypair_record list \<Rightarrow> fs" where
  "deleteKeypairFiles t outputDir keypairs =
     foldl (unlinkQuietly (pathJoin3 outputDir ''target'' ''deploy'')) t keypairs"

text \<open>
  The end of the build route: extract the keypairs of a successful build, send the
  response (its \<open>keypairs\<close> member is left out when there are none), then delete
  the files. The effects are listed in the order the handler performs them.
\<close>

datatype effect = Responded "keypair_record list option" | UnlinkCalled string

definition respondAndPurge ::
  "(nat list \<Rightarrow> nat list) \<Rightarrow> (nat list \<Rightarrow> string) \<Rightarrow> fs \<Rightarrow> string \<Rightarrow> bool \<Rightarrow> effect list \<times> fs" where
  "respondAndPurge publicKeyOf toBase58 t outputDir succeeded =
     (let keypairs = (if succeeded then extractKeypairs publicKeyOf toBase58 t outputDir else [])
      in (Responded (if keypairs \<noteq> [] then Some keypairs else None)
            # (if keypairs \<noteq> [] then map (\<lambda>kp. UnlinkCalled (filename kp)) keypairs else []),
          if keypairs \<noteq> [] then deleteKeypairFiles t outputDir keypairs else t))"

text \<open>The names a directory can hold.\<close>

definition validName :: "string \<Rightarrow> bool" where
  "validName s = (s \<noteq> [] \<and> s \<noteq> ''.'' \<and> s \<noteq> ''..'' \<and> CHR ''/'' \<notin> set s)"

text \<open>The shape of normalised segments: parent segments first, and only in a relative path.\<close>

definition normShape :: "bool \<Rightarrow> string list \<Rightarrow> bool" where
  "normShape al segs =
     (\<exists>k rest. segs = replicate k ''..'' @ rest \<and> list_all validName rest \<and> (al \<or> k = 0))"

section \<open>Project creation from a file map (buildManager.js)\<close>

text \<open>
  \<open>replace(/^(\.\.(\/|\\|$))+/, '')\<close>: leading \<open>..\<close> each followed by a slash, a
  backslash or the end of the text are removed.
\<close>

function stripParents :: "string \<Rightarrow> string" where
  "stripParents s =
     (if prefix ''../'' s \<or> prefix [CHR ''.'', CHR ''.'', CHR 0x5C] s then stripParents (drop 3 s)
      else if s = ''..'' then []
      else s)"
  by pat_completeness auto
termination
proof (relation "measure length")
  show "wf (measure length)" by simp
next
  fix s :: string
  assume "prefix ''../'' s \<or> prefix [CHR ''.'', CHR ''.'', CHR 0x5C] s"
  then have "s \<noteq> []" by auto
  then show "(drop 3 s, s) \<in> measure length" by simp
qed

declare stripParents.simps [simp del]

definition safePathOf :: "string \<Rightarrow> string" where
  "safePathOf filePath = stripParents (normalize filePath)"

datatype failure = InvalidFilePath string | IOError string

record creation =
  cr_tree :: fs
  written :: "string list"
  outcome :: "failure + string"

text \<open>
  The loop over \<open>Object.entries(files)\<close>: the entries in their order, the paths
  written so far, and the first exception ends the loop.
\<close>

fun writeEntries :: "string \<Rightarrow> string \<Rightarrow> fs \<Rightarrow> string list \<Rightarrow> (string \<times> string) list \<Rightarrow> creation" where
  "writeEntries buildId projectDir t sofar [] =
     \<lparr> cr_tree = t, written = sofar, outcome = Inr buildId \<rparr>"
| "writeEntries buildId projectDir t sofar ((filePath, body) # rest) =
     (let safePath = safePathOf filePath
      in if startsWith safePath ''/'' \<or> CHR 0x00 \<in> set safePath then
           \<lparr> cr_tree = t, written = sofar, outcome = Inl (InvalidFilePath filePath) \<rparr>
         else let fullPath = pathJoin projectDir safePath in
           case mkdirp t (dirname fullPath) of
             None \<Rightarrow> \<lparr> cr_tree = t, written = sofar, outcome = Inl (IOError fullPath) \<rparr>
           | Some t1 \<Rightarrow>
             (case writeFile t1 fullPath body of
                None \<Rightarrow> \<lparr> cr_tree = t1, written = sofar, outcome = Inl (IOError fullPath) \<rparr>
              | Some t2 \<Rightarrow> writeEntries buildId projectDir t2 (sofar @ [fullPath]) rest))"

text \<open>
  \<open>createProjectFromFiles\<close>: the identifier drawn for the build is a parameter; the
  two directories are created first (\<open>chmod\<close> is taken to succeed), then the entries
  are written. The registry entry made at the end is not part of this model.
\<close>

definition createProjectFromFiles ::
  "string \<Rightarrow> string \<Rightarrow> string \<Rightarrow> fs \<Rightarrow> (string \<times> string) list \<Rightarrow> creation" where
  "createProjectFromFiles uploadDir buildDir buildId t files =
     (let projectDir = pathJoin uploadDir buildId; outputDir = pathJoin buildDir buildId
      in case mkdirp t projectDir of
        None \<Rightarrow> \<lparr> cr_tree = t, written = [], outcome = Inl (IOError projectDir) \<rparr>
      | Some t1 \<Rightarrow>
        (case mkdirp t1 outputDir of
           None \<Rightarrow> \<lparr> cr_tree = t1, written = [], outcome = Inl (IOError outputDir) \<rparr>
         | Some t2 \<Rightarrow> writeEntries buildId projectDir t2 [] files))"

text \<open>A path lies in a directory: same root, the directory's segments first, then at least
  one more segment and no parent segment.\<close>

definition insideDir :: "string \<Rightarrow> string \<Rightarrow> bool" where
  "insideDir dir p =
     (isAbsolute p = isAbsolute dir
      \<and> length (segments dir) < length (segments p)
      \<and> take (length (segments dir)) (segments p) = segments dir
      \<and> ''..'' \<notin> set (drop (length (segments dir)) (segments p)))"

text \<open>What holds of every applied proposal: it has a path; before the first build its
  extension is a configuration one; a compiled-source proposal is neither a creation nor a deletion.\<close>

definition appliedOk :: "nat \<Rightarrow> fix_proposal \<Rightarrow> bool" where
  "appliedOk i fx = (case path fx of None \<Rightarrow> False
     | Some p \<Rightarrow> (i = 0 \<longrightarrow> isConfigExt (extname p)) \<and>
        (extname p = ''.rs'' \<longrightarrow> action fx \<noteq> ''create'' \<and> action fx \<noteq> ''delete''))"

section \<open>What the agent route answers for a smart build (routes/agent.js)\<close>

text \<open>
  The members of the response of \<^verbatim>\<open>POST /api/v1/build\<close> (and of
  \<^verbatim>\<open>POST /api/v1/project/:buildId/build\<close>) that are computed from the result of
  \<open>smartBuild\<close>: \<^verbatim>\<open>status\<close>, \<^verbatim>\<open>iterations\<close> (\<^verbatim>\<open>result.iterations || 1\<close>), \<^verbatim>\<open>logs\<close>,
  \<^verbatim>\<open>errors\<close> and \<^verbatim>\<open>error\<close> (\<^verbatim>\<open>result.cannotFixReason || result.error || 'Build failed'\<close>; a
  result of \<open>smartBuild\<close> has no member \<^verbatim>\<open>error\<close>). The extraction of error lines from the
  logs is a parameter. The build id, the source, the duration and the next steps do not depend
  on the result; artifacts and keypairs are only there for a successful build.
\<close>

record build_response =
  rp_status :: string
  rp_iterations :: nat
  rp_logs :: "build_logs option"
  rp_errors :: "string list"
  rp_error :: "string option"

definition agentResponse :: "(build_logs option \<Rightarrow> string list) \<Rightarrow> smart_build_result \<Rightarrow> build_response" where
  "agentResponse extractCompilationErrors r =
     (let finalBuildLogs = map_option logs (finalBuild r)
      in \<lparr> rp_status = (if success r then ''success'' else ''failed''),
           rp_iterations = (if iterations r = 0 then 1 else iterations r),
           rp_logs = finalBuildLogs,
           rp_errors = (if success r then [] else extractCompilationErrors finalBuildLogs),
           rp_error = (if success r then None
                       else Some (case cannotFixReason r of
                                    None \<Rightarrow> ''Build failed''
                                  | Some reason \<Rightarrow> if reason = [] then ''Build failed'' else reason)) \<rparr>)"

section \<open>Concurrency Guard (routes/agent.js)\<close>

text \<open>
  The handler of \<^verbatim>\<open>POST /api/v1/build\<close> is an async function on a single-threaded event loop:
  its code between two awaits runs without interruption, and at an await other handlers may
  run. The model keeps the map \<^verbatim>\<open>activeAgentBuilds\<close> and, for every request whose handler is
  suspended, the await it is suspended at. The events are the segments of the handler:
  \<^item> \<open>Arrive\<close>: from the start of the handler to the await of \<^verbatim>\<open>createProjectFromFiles\<close>
    (or \<^verbatim>\<open>startBuildFromGithub\<close>): the check of the map, answered 409 when it holds an entry
    for the agent, and the validation of the request body, answered 400 when it fails;
  \<^item> \<open>ProjectCreated\<close>: the project promise is fulfilled: \<^verbatim>\<open>setActiveAgentBuild\<close>, and the build
    is started and awaited;
  \<^item> \<open>ProjectFailed\<close>: the project promise is rejected: the outer catch calls
    \<^verbatim>\<open>clearActiveAgentBuild\<close> and answers 500;
  \<^item> \<open>BuildSettled\<close>: the build promise is settled: the finally block calls
    \<^verbatim>\<open>clearActiveAgentBuild\<close>; the response follows (the outer catch clears once more and
    answers 500 when the build promise was rejected).
  An event for a request that is not suspended at the matching await changes nothing.
  \<^verbatim>\<open>Date.now()\<close> is a counter of the segments run so far.
\<close>

record active_build =
  ab_buildId :: string
  startedAt :: nat

datatype response = Conflict string | BadRequest | ServerError | BuildResponse string

datatype await_point = AwaitingProject | AwaitingBuild string

record server =
  activeAgentBuilds :: "(string \<times> active_build) list"
  handlers :: "(nat \<times> string \<times> await_point) list"
  responses :: "(nat \<times> response) list"
  clock :: nat

definition getActiveAgentBuild :: "server \<Rightarrow> string \<Rightarrow> active_build option" where
  "getActiveAgentBuild s agentId = map_of (activeAgentBuilds s) agentId"

definition setActiveAgentBuild :: "server \<Rightarrow> string \<Rightarrow> string \<Rightarrow> server" where
  "setActiveAgentBuild s agentId buildId =
     s\<lparr> activeAgentBuilds :=
          AList.update agentId \<lparr> ab_buildId = buildId, startedAt = clock s \<rparr> (activeAgentBuilds s) \<rparr>"

definition clearActiveAgentBuild :: "server \<Rightarrow> string \<Rightarrow> server" where
  "clearActiveAgentBuild s agentId =
     s\<lparr> activeAgentBuilds := AList.delete agentId (activeAgentBuilds s) \<rparr>"

definition suspend :: "server \<Rightarrow> nat \<Rightarrow> string \<Rightarrow> await_point \<Rightarrow> server" where
  "suspend s rid agentId w = s\<lparr> handlers := AList.update rid (agentId, w) (handlers s) \<rparr>"

definition respond :: "server \<Rightarrow> nat \<Rightarrow> response \<Rightarrow> server" where
  "respond s rid r =
     s\<lparr> handlers := AList.delete rid (handlers s), responses := responses s @ [(rid, r)] \<rparr>"

datatype event =
    Arrive nat string bool
  | ProjectCreated nat string
  | ProjectFailed nat
  | BuildSettled nat bool

fun handlerStep :: "server \<Rightarrow> event \<Rightarrow> server" where
  "handlerStep s (Arrive rid agentId valid) =
     (case getActiveAgentBuild s agentId of
        Some activeBuild \<Rightarrow> respond s rid (Conflict (ab_buildId activeBuild))
      | None \<Rightarrow>
          if valid then suspend s rid agentId AwaitingProject
          else respond s rid BadRequest)"
| "handlerStep s (ProjectCreated rid buildId) =
     (case map_of (handlers s) rid of
        Some (agentId, AwaitingProject) \<Rightarrow>
          suspend (setActiveAgentBuild s agentId buildId) rid agentId (AwaitingBuild buildId)
      | _ \<Rightarrow> s)"
| "handlerStep s (ProjectFailed rid) =
     (case map_of (handlers s) rid of
        Some (agentId, AwaitingProject) \<Rightarrow>
          respond (clearActiveAgentBuild s agentId) rid ServerError
      | _ \<Rightarrow> s)"
| "handlerStep s (BuildSettled rid fulfilled) =
     (case map_of (handlers s) rid of
        Some (agentId, AwaitingBuild buildId) \<Rightarrow>
          if fulfilled then respond (clearActiveAgentBuild s agentId) rid (BuildResponse buildId)
          else respond (clearActiveAgentBuild (clearActiveAgentBuild s agentId) agentId) rid ServerError
      | _ \<Rightarrow> s)"

definition tick :: "server \<Rightarrow> event \<Rightarrow> server" where
  "tick s e = (handlerStep s e)\<lparr> clock := clock s + 1 \<rparr>"

definition serve :: "server \<Rightarrow> event list \<Rightarrow> server" where
  "serve s es = foldl tick s es"

definition idle :: server where
  "idle = \<lparr> activeAgentBuilds = [], handlers = [], responses = [], clock = 0 \<rparr>"

definition inFlight :: "server \<Rightarrow> string \<Rightarrow> string list" where
  "inFlight s agentId =
     concat (map (\<lambda>(rid, a, w). case w of
                     AwaitingBuild buildId \<Rightarrow> if a = agentId then [buildId] else []
                   | AwaitingProject \<Rightarrow> []) (handlers s))"

section \<open>Sample inputs\<close>

text \<open>
  A source tree with one compiled-source file, and proposals of each kind, used to
  run the definitions on concrete inputs.
\<close>

definition exTree :: fs where
  "exTree =
     [((False, [''up'']), Dir),
      ((False, [''up'', ''a.rs'']), File ''fn x() {} fn y() {}'')]"

definition exCargo :: fix_proposal where
  "exCargo = \<lparr> action = ''create'', path = Some ''Cargo.toml'', content = Some ''[package]'' \<rparr>"

definition exTs :: fix_proposal where
  "exTs = \<lparr> action = ''create'', path = Some ''tests/x.ts'', content = Some ''it()'' \<rparr>"

definition exUpdate :: fix_proposal where
  "exUpdate = \<lparr> action = ''update'', path = Some ''a.rs'', content = Some ''fn x() {} fn y() {}'' \<rparr>"

definition exCreateNew :: fix_proposal where
  "exCreateNew = \<lparr> action = ''create'', path = Some ''b.rs'', content = Some ''fn z() {}'' \<rparr>"

definition exCreateOld :: fix_proposal where
  "exCreateOld =
     \<lparr> action = ''create'', path = Some ''a.rs'', content = Some ''fn x() {} fn y() {} fn z() {}'' \<rparr>"

definition exDelete :: fix_proposal where
  "exDelete = \<lparr> action = ''delete'', path = Some ''a.rs'', content = Some ''x'' \<rparr>"


definition exUpdateNew :: fix_proposal where
  "exUpdateNew = \<lparr> action = ''update'', path = Some ''c.rs'', content = Some ''// empty'' \<rparr>"




definition exDeclineText :: string where
  "exDeclineText = ''{'' @ [CHR 0x22] @ ''cannotFix'' @ [CHR 0x22] @ '': true}''"

definition exOutTree :: fs where
  "exOutTree =
     [((False, [''up'']), Dir),
      ((False, [''out'']), Dir),
      ((False, [''out'', ''target'']), Dir),
      ((False, [''out'', ''target'', ''deploy'']), Dir),
      ((False, [''out'', ''target'', ''deploy'', ''prog.so'']), File ''ELF''),
      ((False, [''out'', ''target'', ''deploy'', ''prog-keypair.json'']), File ''[1,2,3]'')]"

text \<open>An environment whose first build fails and whose advisor then declines.\<close>

definition exEnvDecline :: env where
  "exEnvDecline =
     \<lparr> analyzer = (\<lambda>t. True), reorganizer = (\<lambda>t. t), structureAdvisor = (\<lambda>t. Some []),
       advisor = (\<lambda>i t b prev. Answered exDeclineText []),
       container = (\<lambda>h i t. (Exited 1 ''error[E0425]: cannot find value'' [], t)),
       jsonAnalysis = (\<lambda>text. None), shortAnalysis = (\<lambda>text. []) \<rparr>"

text \<open>An environment whose builds fail and whose advisor cannot be reached.\<close>

definition exEnvUnreachable :: env where
  "exEnvUnreachable =
     \<lparr> analyzer = (\<lambda>t. True), reorganizer = (\<lambda>t. t), structureAdvisor = (\<lambda>t. None),
       advisor = (\<lambda>i t b prev. CallFailed ''429''),
       container = (\<lambda>h i t. (Raised ''Build timeout exceeded'' [] [], t)),
       jsonAnalysis = (\<lambda>text. None), shortAnalysis = (\<lambda>text. []) \<rparr>"

text \<open>Environments whose container exits with code zero, with and without artifacts.\<close>

definition exEnvZeroExit :: env where
  "exEnvZeroExit =
     \<lparr> analyzer = (\<lambda>t. True), reorganizer = (\<lambda>t. t), structureAdvisor = (\<lambda>t. Some []),
       advisor = (\<lambda>i t b prev. CallFailed ''unused''),
       container = (\<lambda>h i t. (Exited 0 ''Finished release'' [], exOutTree)),
       jsonAnalysis = (\<lambda>text. None), shortAnalysis = (\<lambda>text. []) \<rparr>"

definition exEnvZeroExitEmpty :: env where
  "exEnvZeroExitEmpty =
     \<lparr> analyzer = (\<lambda>t. True), reorganizer = (\<lambda>t. t), structureAdvisor = (\<lambda>t. Some []),
       advisor = (\<lambda>i t b prev. CallFailed ''unused''),
       container = (\<lambda>h i t. (Exited 0 ''Finished release'' [], t)),
       jsonAnalysis = (\<lambda>text. None), shortAnalysis = (\<lambda>text. []) \<rparr>"

text \<open>
  An environment whose first build fails and whose advisor then declines, in a JSON block whose
  \<^verbatim>\<open>analysis\<close> member is the sentence the loop itself uses when it runs out of iterations.
\<close>

definition exLastWordText :: string where
  "exLastWordText =
     fence @ ''json'' @ [CHR 0x0A] @ ''{'' @ [CHR 0x22] @ ''analysis'' @ [CHR 0x22] @ '': '' @ [CHR 0x22]
     @ ''Exhausted all retry attempts without successful compilation'' @ [CHR 0x22] @ '', ''
     @ [CHR 0x22] @ ''cannotFix'' @ [CHR 0x22] @ '': true}'' @ [CHR 0x0A] @ fence"

definition exEnvLastWord :: env where
  "exEnvLastWord =
     \<lparr> analyzer = (\<lambda>t. True), reorganizer = (\<lambda>t. t), structureAdvisor = (\<lambda>t. None),
       advisor = (\<lambda>i t b prev. Answered exLastWordText []),
       container = (\<lambda>h i t. (Raised ''Build timeout exceeded'' [] [], t)),
       jsonAnalysis = (\<lambda>text. if text = exLastWordText
          then Some ''Exhausted all retry attempts without successful compilation'' else None),
       shortAnalysis = (\<lambda>text. []) \<rparr>"

definition exKeyTree :: fs where
  "exKeyTree =
     [((False, [''out'']), Dir),
      ((False, [''out'', ''target'']), Dir),
      ((False, [''out'', ''target'', ''deploy'']), Dir),
      ((False, [''out'', ''target'', ''deploy'', ''prog.so'']), File ''ELF''),
      ((False, [''out'', ''target'', ''deploy'', ''prog-keypair.json'']),
         File (''['' @ concat (replicate 63 ''0,'') @ ''0]'')),
      ((False, [''out'', ''target'', ''deploy'', ''bad-keypair.json'']), File ''[1,2,3]'')]"

section \<open>Properties\<close>

subsection \<open>Sandbox configuration\<close>

text \<open>
  C4 (as stated): every container configuration built by the sandbox executor disables
  networking. With the configuration the repository ships this is false: the flag
  \<open>networkDisabled\<close> is \<open>False\<close> and the network mode is \<open>default\<close>.
\<close>

theorem C4_network_enabled_by_shipped_config:
  "NetworkMode (hostConfig config_docker) = ''default'' \<and>
   NetworkMode (hostConfig config_docker) \<noteq> ''none''"
  by (simp add: hostConfig_def config_docker_def)

text \<open>
  C4 (amended): the network mode of the container configuration is \<open>none\<close> exactly
  when the configuration flag \<open>networkDisabled\<close> is set; the executor itself adds no
  further network restriction.
\<close>

theorem C4_network_mode_follows_flag:
  "(NetworkMode (hostConfig cfg) = ''none'') = networkDisabled cfg"
  by (simp add: hostConfig_def)

subsection \<open>The double product with 0.7\<close>








subsection \<open>Fix Safety Validator\<close>

lemma isConfigExt_rs: "\<not> isConfigExt ''.rs''"
  by (simp add: isConfigExt_def)

lemma rsChecks_accept:
  "rsChecks t d p fx = (fx', None) \<Longrightarrow>
     action fx' \<noteq> ''create'' \<and> action fx' \<noteq> ''delete'' \<and> path fx' = path fx \<and> content fx' = content fx"
  by (auto simp: rsChecks_def Let_def split: if_splits safety.splits)

lemma applyWrite_applied:
  "applied (applyWrite d st p c fx) = applied st \<or> applied (applyWrite d st p c fx) = applied st @ [fx]"
  by (simp add: applyWrite_def reject_def Let_def split: option.splits)

lemma applySafeFix_applied:
  "applied (applySafeFix d i st fx) = applied st \<or>
   (\<exists>fx'. applied (applySafeFix d i st fx) = applied st @ [fx'] \<and> appliedOk i fx')"
proof (cases "path fx")
  case None
  then show ?thesis by (simp add: applySafeFix_def reject_def)
next
  case (Some p)
  note P = this
  show ?thesis
  proof (cases "content fx")
    case None
    with P show ?thesis by (simp add: applySafeFix_def reject_def)
  next
    case (Some c)
    show ?thesis
    proof (cases "0 < i \<and> extname p = ''.rs''")
      case True
      obtain fx' w where R: "rsChecks (tree st) d p fx = (fx', w)" by (cases "rsChecks (tree st) d p fx")
      show ?thesis
      proof (cases w)
        case None
        with R rsChecks_accept[of "tree st" d p fx fx'] P have "appliedOk i fx'"
          using True by (simp add: appliedOk_def)
        with applyWrite_applied[of d st p c fx'] R None True P Some show ?thesis
          by (auto simp: applySafeFix_def reject_def Let_def)
      next
        case (Some why)
        with R True P \<open>content fx = Some c\<close> show ?thesis
          by (simp add: applySafeFix_def reject_def Let_def)
      qed
    next
      case False
      have ok: "isConfigExt (extname p) \<or> 0 < i \<Longrightarrow> appliedOk i fx"
        using False P isConfigExt_rs by (auto simp: appliedOk_def)
      from False P Some applyWrite_applied[of d st p c fx] ok show ?thesis
        using isConfigExt_rs by (auto simp: applySafeFix_def reject_def Let_def)
    qed
  qed
qed

lemma applySafeFixes_applied_ok:
  "list_all (appliedOk i) (applied (applySafeFixes t d fxs i))"
proof (induction fxs rule: rev_induct)
  case Nil
  then show ?case by (simp add: applySafeFixes_def)
next
  case (snoc fx fxs)
  have "applySafeFixes t d (fxs @ [fx]) i = applySafeFix d i (applySafeFixes t d fxs i) fx"
    by (simp add: applySafeFixes_def)
  with snoc applySafeFix_applied[of d i "applySafeFixes t d fxs i" fx] show ?case
    by auto
qed

lemma applyWrite_rejected:
  "set (rejected st) \<subseteq> set (rejected (applyWrite d st p c fx))"
  by (auto simp: applyWrite_def reject_def Let_def split: option.splits)

lemma applySafeFix_rejected_mono:
  "set (rejected st) \<subseteq> set (rejected (applySafeFix d i st fx))"
  using applyWrite_rejected[of st d]
  by (auto simp: applySafeFix_def reject_def Let_def split: option.splits prod.splits)

lemma foldl_rejected_mono:
  "set (rejected st) \<subseteq> set (rejected (foldl (applySafeFix d i) st fxs))"
proof (induction fxs arbitrary: st)
  case Nil
  show ?case by simp
next
  case (Cons fx fxs)
  from applySafeFix_rejected_mono[of st d i fx] Cons[of "applySafeFix d i st fx"]
  show ?case by auto
qed

lemma applySafeFixes_split:
  "applySafeFixes t d (pre @ fx # post) i =
     foldl (applySafeFix d i) (applySafeFix d i (applySafeFixes t d pre i) fx) post"
  by (simp add: applySafeFixes_def)

lemma step_rejected_final:
  assumes "(fx', why) \<in> set (rejected (applySafeFix d i (applySafeFixes t d pre i) fx))"
  shows "(fx', why) \<in> set (rejected (applySafeFixes t d (pre @ fx # post) i))"
  using assms foldl_rejected_mono[of "applySafeFix d i (applySafeFixes t d pre i) fx" d i post]
  by (auto simp: applySafeFixes_split)

lemma step_iteration0_other_ext:
  assumes "\<And>p. path fx = Some p \<Longrightarrow> \<not> isConfigExt (extname p)"
  shows "\<exists>why. rejected (applySafeFix d 0 st fx) = rejected st @ [(fx, why)]"
  using assms by (auto simp: applySafeFix_def reject_def Let_def split: option.splits)

lemma step_create_missing:
  assumes "0 < i" "path fx = Some p" "extname p = ''.rs''" "content fx = Some c" "c \<noteq> []"
    "action fx = ''create''" "\<not> fsAccess (tree st) (pathJoin d p)"
  shows "applySafeFix d i st fx = reject st fx CannotCreateRs [REJECTED p]"
proof -
  from assms(3) have "p \<noteq> []" by (auto simp: extname_def basename_def)
  with assms show ?thesis
    by (simp add: applySafeFix_def rsChecks_def Let_def)
qed

lemma step_delete:
  assumes "0 < i" "path fx = Some p" "extname p = ''.rs''" "content fx = Some c" "c \<noteq> []"
    "action fx = ''delete''"
  shows "applySafeFix d i st fx = reject st fx CannotDeleteRs [REJECTED p]"
proof -
  from assms(3) have "p \<noteq> []" by (auto simp: extname_def basename_def)
  with assms show ?thesis
    by (simp add: applySafeFix_def rsChecks_def Let_def)
qed

lemma step_create_existing:
  assumes "0 < i" "path fx = Some p" "extname p = ''.rs''" "content fx = Some c" "c \<noteq> []"
    "action fx = ''create''" "fsAccess (tree st) (pathJoin d p)"
  shows "applySafeFix d i st fx = applySafeFix d i st (fx\<lparr> action := ''update'' \<rparr>)"
proof -
  from assms(3) have "p \<noteq> []" by (auto simp: extname_def basename_def)
  with assms show ?thesis
    by (simp add: applySafeFix_def rsChecks_def validateRsFixSafety_def Let_def)
qed



text \<open>
  The phase allow-list, read on the extension \<open>path.extname\<close> gives the proposal's
  path: at iteration 0 every applied proposal has a configuration extension and every
  proposal with another extension (or none, or no path) is rejected; no applied
  proposal with extension \<open>.rs\<close> is a creation or a deletion, and none is applied at
  iteration 0 at all; at iteration 1 and later a creation with extension \<open>.rs\<close> at a
  path that does not exist when the proposal is reached is rejected, a creation at an
  existing path is handled exactly as the same proposal with action update, and a
  deletion with extension \<open>.rs\<close> is rejected.
\<close>

theorem validator_phase_allow_list:
  "(i = 0 \<longrightarrow>
      (\<forall>fx \<in> set (applied (applySafeFixes t d fxs i)). \<exists>p. path fx = Some p \<and> isConfigExt (extname p)))
   \<and> (i = 0 \<longrightarrow>
      (\<forall>fx \<in> set fxs. (\<forall>p. path fx = Some p \<longrightarrow> \<not> isConfigExt (extname p)) \<longrightarrow>
         fx \<in> fst ` set (rejected (applySafeFixes t d fxs i))))
   \<and> (\<forall>fx \<in> set (applied (applySafeFixes t d fxs i)). \<forall>p. path fx = Some p \<and> extname p = ''.rs'' \<longrightarrow>
         0 < i \<and> action fx \<noteq> ''create'' \<and> action fx \<noteq> ''delete'')
   \<and> (0 < i \<and> fxs = pre @ fx # post \<and> path fx = Some p \<and> extname p = ''.rs'' \<and>
        content fx = Some c \<and> c \<noteq> [] \<longrightarrow>
        (action fx = ''create'' \<and> \<not> fsAccess (tree (applySafeFixes t d pre i)) (pathJoin d p) \<longrightarrow>
           (fx, CannotCreateRs) \<in> set (rejected (applySafeFixes t d fxs i)))
      \<and> (action fx = ''create'' \<and> fsAccess (tree (applySafeFixes t d pre i)) (pathJoin d p) \<longrightarrow>
           applySafeFixes t d fxs i = applySafeFixes t d (pre @ fx\<lparr> action := ''update'' \<rparr> # post) i)
      \<and> (action fx = ''delete'' \<longrightarrow>
           (fx, CannotDeleteRs) \<in> set (rejected (applySafeFixes t d fxs i))))"
proof -
  let ?R = "applySafeFixes t d fxs i"
  have ok: "\<And>fx. fx \<in> set (applied ?R) \<Longrightarrow> appliedOk i fx"
    using applySafeFixes_applied_ok[of i t d fxs] by (simp add: list_all_iff)
  have A: "i = 0 \<longrightarrow> (\<forall>fx \<in> set (applied ?R). \<exists>p. path fx = Some p \<and> isConfigExt (extname p))"
    using ok by (fastforce simp: appliedOk_def split: option.splits)
  have B: "i = 0 \<longrightarrow> (\<forall>fx \<in> set fxs. (\<forall>p. path fx = Some p \<longrightarrow> \<not> isConfigExt (extname p)) \<longrightarrow>
         fx \<in> fst ` set (rejected ?R))"
  proof (intro impI ballI)
    fix fx assume i0: "i = 0" and mem: "fx \<in> set fxs"
      and ext: "\<forall>p. path fx = Some p \<longrightarrow> \<not> isConfigExt (extname p)"
    from mem obtain pre post where sp: "fxs = pre @ fx # post" by (auto simp: in_set_conv_decomp)
    from ext have "\<exists>why. rejected (applySafeFix d 0 (applySafeFixes t d pre i) fx)
        = rejected (applySafeFixes t d pre i) @ [(fx, why)]"
      by (intro step_iteration0_other_ext) simp
    then obtain why where "(fx, why) \<in> set (rejected (applySafeFix d i (applySafeFixes t d pre i) fx))"
      using i0 by fastforce
    from step_rejected_final[OF this, of post] sp show "fx \<in> fst ` set (rejected ?R)"
      by force
  qed
  have C: "\<forall>fx \<in> set (applied ?R). \<forall>p. path fx = Some p \<and> extname p = ''.rs'' \<longrightarrow>
         0 < i \<and> action fx \<noteq> ''create'' \<and> action fx \<noteq> ''delete''"
    using ok isConfigExt_rs by (fastforce simp: appliedOk_def split: option.splits)
  have D: "0 < i \<and> fxs = pre @ fx # post \<and> path fx = Some p \<and> extname p = ''.rs'' \<and>
        content fx = Some c \<and> c \<noteq> [] \<longrightarrow>
        (action fx = ''create'' \<and> \<not> fsAccess (tree (applySafeFixes t d pre i)) (pathJoin d p) \<longrightarrow>
           (fx, CannotCreateRs) \<in> set (rejected ?R))
      \<and> (action fx = ''create'' \<and> fsAccess (tree (applySafeFixes t d pre i)) (pathJoin d p) \<longrightarrow>
           ?R = applySafeFixes t d (pre @ fx\<lparr> action := ''update'' \<rparr> # post) i)
      \<and> (action fx = ''delete'' \<longrightarrow> (fx, CannotDeleteRs) \<in> set (rejected ?R))"
  proof (intro impI, elim conjE)
    assume h: "0 < i" "fxs = pre @ fx # post" "path fx = Some p" "extname p = ''.rs''"
      "content fx = Some c" "c \<noteq> []"
    let ?st = "applySafeFixes t d pre i"
    have 1: "(fx, CannotCreateRs) \<in> set (rejected ?R)"
      if "action fx = ''create''" "\<not> fsAccess (tree ?st) (pathJoin d p)"
    proof -
      from step_create_missing[OF h(1) h(3) h(4) h(5) h(6) that]
      have "(fx, CannotCreateRs) \<in> set (rejected (applySafeFix d i ?st fx))"
        by (simp add: reject_def)
      from step_rejected_final[OF this, of post] h(2) show ?thesis by simp
    qed
    have 2: "?R = applySafeFixes t d (pre @ fx\<lparr> action := ''update'' \<rparr> # post) i"
      if "action fx = ''create''" "fsAccess (tree ?st) (pathJoin d p)"
      using step_create_existing[OF h(1) h(3) h(4) h(5) h(6) that] h(2)
      by (simp add: applySafeFixes_split)
    have 3: "(fx, CannotDeleteRs) \<in> set (rejected ?R)" if "action fx = ''delete''"
    proof -
      from step_delete[OF h(1) h(3) h(4) h(5) h(6) that]
      have "(fx, CannotDeleteRs) \<in> set (rejected (applySafeFix d i ?st fx))"
        by (simp add: reject_def)
      from step_rejected_final[OF this, of post] h(2) show ?thesis by simp
    qed
    from 1 2 3 show "(action fx = ''create'' \<and> \<not> fsAccess (tree ?st) (pathJoin d p) \<longrightarrow>
           (fx, CannotCreateRs) \<in> set (rejected ?R))
      \<and> (action fx = ''create'' \<and> fsAccess (tree ?st) (pathJoin d p) \<longrightarrow>
           ?R = applySafeFixes t d (pre @ fx\<lparr> action := ''update'' \<rparr> # post) i)
      \<and> (action fx = ''delete'' \<longrightarrow> (fx, CannotDeleteRs) \<in> set (rejected ?R))"
      by blast
  qed
  from A B C D show ?thesis by blast
qed


theorem validator_phase_allow_list_witness:
  "(\<exists>p. path exCargo = Some p \<and> isConfigExt (extname p))
   \<and> exTs \<in> fst ` set (rejected (applySafeFixes exTree ''up'' [exCargo, exTs, exUpdate] 0))
   \<and> exUpdate \<in> fst ` set (rejected (applySafeFixes exTree ''up'' [exCargo, exTs, exUpdate] 0))
   \<and> (exCreateNew, CannotCreateRs)
        \<in> set (rejected (applySafeFixes exTree ''up'' [exCreateNew, exCreateOld, exDelete] 1))
   \<and> applySafeFixes exTree ''up'' [exCreateNew, exCreateOld, exDelete] 1
        = applySafeFixes exTree ''up'' [exCreateNew, exCreateOld\<lparr> action := ''update'' \<rparr>, exDelete] 1
   \<and> (exDelete, CannotDeleteRs)
        \<in> set (rejected (applySafeFixes exTree ''up'' [exCreateNew, exCreateOld, exDelete] 1))"
proof -
  let ?b0 = "[exCargo, exTs, exUpdate]" and ?b1 = "[exCreateNew, exCreateOld, exDelete]"
  have a0: "exCargo \<in> set (applied (applySafeFixes exTree ''up'' ?b0 0))" by code_simp
  have "\<not> isConfigExt (extname ''tests/x.ts'')" by code_simp
  then have e1: "\<forall>p. path exTs = Some p \<longrightarrow> \<not> isConfigExt (extname p)"
    by (simp add: exTs_def)
  have "\<not> isConfigExt (extname ''a.rs'')" by code_simp
  then have e2: "\<forall>p. path exUpdate = Some p \<longrightarrow> \<not> isConfigExt (extname p)"
    by (simp add: exUpdate_def)
  note T0 = validator_phase_allow_list[of 0 exTree "''up''" ?b0]
  from T0 a0 have A: "\<exists>p. path exCargo = Some p \<and> isConfigExt (extname p)" by blast
  from T0 e1 have B1: "exTs \<in> fst ` set (rejected (applySafeFixes exTree ''up'' ?b0 0))" by simp
  from T0 e2 have B2: "exUpdate \<in> fst ` set (rejected (applySafeFixes exTree ''up'' ?b0 0))" by simp
  have n1: "\<not> fsAccess (tree (applySafeFixes exTree ''up'' [] 1)) (pathJoin ''up'' ''b.rs'')" by code_simp
  have x1: "extname ''b.rs'' = ''.rs''" "extname ''a.rs'' = ''.rs''" by code_simp+
  have D1: "(exCreateNew, CannotCreateRs) \<in> set (rejected (applySafeFixes exTree ''up'' ?b1 1))"
    using validator_phase_allow_list[of 1 exTree "''up''" ?b1 "[]" exCreateNew "[exCreateOld, exDelete]" "''b.rs''" "''fn z() {}''"]
      n1 x1 by (simp add: exCreateNew_def)
  have n2: "fsAccess (tree (applySafeFixes exTree ''up'' [exCreateNew] 1)) (pathJoin ''up'' ''a.rs'')" by code_simp
  have D2: "applySafeFixes exTree ''up'' ?b1 1
        = applySafeFixes exTree ''up'' [exCreateNew, exCreateOld\<lparr> action := ''update'' \<rparr>, exDelete] 1"
    using validator_phase_allow_list[of 1 exTree "''up''" ?b1 "[exCreateNew]" exCreateOld "[exDelete]" "''a.rs''"
       "''fn x() {} fn y() {} fn z() {}''"]
      n2 x1 by (simp add: exCreateOld_def)
  have D3: "(exDelete, CannotDeleteRs) \<in> set (rejected (applySafeFixes exTree ''up'' ?b1 1))"
    using validator_phase_allow_list[of 1 exTree "''up''" ?b1 "[exCreateNew, exCreateOld]" exDelete "[]" "''a.rs''" "''x''"]
      x1 by (simp add: exDelete_def)
  from A B1 B2 D1 D2 D3 show ?thesis by blast
qed

text \<open>
  C2: no creation of a compiled-source file at a path that does not exist is ever
  applied. The validator classifies a proposal by the extension of its path as
  given, but writes to the normalised path: for the path \<open>b.rs/.\<close> the extension
  is empty, the checks for compiled-source files are skipped at iteration 1, and the
  file \<open>up/b.rs\<close>, which did not exist, is created.
\<close>

theorem C2_dot_segment_creates_source_file:
  "extname ''b.rs/.'' = []
   \<and> \<not> fsAccess exTree (pathJoin ''up'' ''b.rs/.'')
   \<and> pathJoin ''up'' ''b.rs/.'' = ''up/b.rs''
   \<and> applied (applySafeFixes exTree ''up''
        [\<lparr> action = ''create'', path = Some ''b.rs/.'', content = Some ''fn z() {}'' \<rparr>] 1)
       = [\<lparr> action = ''create'', path = Some ''b.rs/.'', content = Some ''fn z() {}'' \<rparr>]
   \<and> readFile (tree (applySafeFixes exTree ''up''
        [\<lparr> action = ''create'', path = Some ''b.rs/.'', content = Some ''fn z() {}'' \<rparr>] 1)) ''up/b.rs''
       = Some ''fn z() {}''
   \<and> extname ''up/b.rs'' = ''.rs''"
  by code_simp




text \<open>
  C9: when no file can be read at the proposal's path, the regression guard answers
  safe without counting anything, and a compiled-source proposal that is neither a
  creation nor a deletion passes all the checks unchanged.
\<close>

theorem C9_unreadable_existing_file_is_safe:
  "path fx = Some p \<and> readFile t (pathJoin projectDir p) = None \<longrightarrow>
     validateRsFixSafety t projectDir fx = Safe
     \<and> (action fx \<noteq> ''create'' \<and> action fx \<noteq> ''delete'' \<longrightarrow>
          rsChecks t projectDir p fx = (fx, None))"
  by (simp add: validateRsFixSafety_def rsChecks_def)

theorem C9_unreadable_existing_file_is_safe_witness:
  "readFile exTree (pathJoin ''up'' ''c.rs'') = None
   \<and> validateRsFixSafety exTree ''up'' exUpdateNew = Safe
   \<and> rsChecks exTree ''up'' ''c.rs'' exUpdateNew = (exUpdateNew, None)
   \<and> applied (applySafeFixes exTree ''up'' [exUpdateNew] 1) = [exUpdateNew]"
proof -
  have r: "readFile exTree (pathJoin ''up'' ''c.rs'') = None" by code_simp
  have p: "path exUpdateNew = Some ''c.rs''" "action exUpdateNew \<noteq> ''create''" "action exUpdateNew \<noteq> ''delete''"
    by (simp_all add: exUpdateNew_def)
  have a: "applied (applySafeFixes exTree ''up'' [exUpdateNew] 1) = [exUpdateNew]" by code_simp
  from C9_unreadable_existing_file_is_safe[of exUpdateNew "''c.rs''" exTree "''up''"] r p a
  show ?thesis by simp
qed


subsection \<open>Build Orchestrator\<close>

lemma buildingPhase_Continue:
  assumes "buildingPhase e cfg od i st = Continue st'"
  shows "sandboxRuns st' = sandboxRuns st @ [i] \<and> lastBuildResult st' \<noteq> None
     \<and> (\<exists>r d. ls_phases st' = ls_phases st @ [\<lparr> phase = ''building'', iteration = i, result = r, details = d \<rparr>]
            \<and> r \<noteq> ''cannot_fix'')"
  using assms
  by (auto simp: buildingPhase_def pushPhase_def Let_def split: prod.splits if_splits)

lemma fixingPhase_Skip:
  assumes "fixingPhase e pd i lb st = Skip st'"
  shows "sandboxRuns st' = sandboxRuns st \<and> lastBuildResult st' = lastBuildResult st
     \<and> (\<exists>r d. ls_phases st' = ls_phases st @ [\<lparr> phase = ''fixing'', iteration = i, result = r, details = d \<rparr>]
            \<and> r \<noteq> ''cannot_fix'')"
  using assms
  by (auto simp: fixingPhase_def pushPhase_def Let_def split: if_splits)

lemma fixingPhase_Build:
  assumes "fixingPhase e pd i lb st = Build st'"
  shows "sandboxRuns st' = sandboxRuns st \<and> lastBuildResult st' = lastBuildResult st
     \<and> (\<exists>r d. ls_phases st' = ls_phases st @ [\<lparr> phase = ''fixing'', iteration = i, result = r, details = d \<rparr>]
            \<and> r \<noteq> ''cannot_fix'')"
  using assms
  by (auto simp: fixingPhase_def pushPhase_def Let_def split: if_splits)

lemma firstHalf_zero:
  "sandboxRuns (verifyingPhase e pd (analyzingPhase e st)) = sandboxRuns st
   \<and> (\<exists>r1 r2. ls_phases (verifyingPhase e pd (analyzingPhase e st)) =
         ls_phases st @ [\<lparr> phase = ''analyzing'', iteration = 0, result = r1, details = NoDetails \<rparr>,
                         \<lparr> phase = ''verifying'', iteration = 0, result = r2, details = NoDetails \<rparr>]
       \<and> r1 \<noteq> ''cannot_fix'' \<and> r2 \<noteq> ''cannot_fix'')"
  by (auto simp: verifyingPhase_def analyzingPhase_def pushPhase_def split: prod.splits)

lemma reachableInv_mono:
  "reachableInv i st \<Longrightarrow> list_all (\<lambda>k. k < Suc i) (sandboxRuns st)
     \<and> list_all (\<lambda>p. result p \<noteq> ''cannot_fix'' \<and> iteration p < Suc i) (ls_phases st)"
  by (auto simp: reachableInv_def list_all_iff)

lemma iterationStep_Continue:
  assumes "iterationStep e cfg pd od i st = Continue st'" "reachableInv i st"
  shows "reachableInv (Suc i) st'"
proof (cases "i = 0")
  case True
  with assms(1) have B: "buildingPhase e cfg od 0 (verifyingPhase e pd (analyzingPhase e st)) = Continue st'"
    by (simp add: iterationStep_def)
  from buildingPhase_Continue[OF B] firstHalf_zero[of e pd st] reachableInv_mono[OF assms(2)] True
  show ?thesis
    by (auto simp: reachableInv_def)
next
  case False
  with assms(2) obtain lb where lb: "lastBuildResult st = Some lb" by (auto simp: reachableInv_def)
  show ?thesis
  proof (cases "fixingPhase e pd i lb st")
    case (Skip s1)
    with assms(1) False lb have "st' = s1" by (simp add: iterationStep_def)
    with fixingPhase_Skip[OF Skip] reachableInv_mono[OF assms(2)] lb show ?thesis
      by (auto simp: reachableInv_def)
  next
    case (Decline r s1)
    with assms(1) False lb show ?thesis by (simp add: iterationStep_def)
  next
    case (Build s1)
    with assms(1) False lb have B: "buildingPhase e cfg od i s1 = Continue st'" by (simp add: iterationStep_def)
    from buildingPhase_Continue[OF B] fixingPhase_Build[OF Build] reachableInv_mono[OF assms(2)]
    show ?thesis
      by (auto simp: reachableInv_def)
  qed
qed

lemma stateAt_le:
  "stateAt e cfg pd od M t i = Some st \<Longrightarrow> i \<le> M"
  by (cases i) (auto split: option.splits if_splits)

lemma stateAt_inv:
  "stateAt e cfg pd od M t i = Some st \<Longrightarrow> reachableInv i st"
proof (induction i arbitrary: st)
  case 0
  then have "st = initialState t" by simp
  then show ?case by (simp add: reachableInv_def initialState_def)
next
  case (Suc i)
  then obtain s0 where s0: "stateAt e cfg pd od M t i = Some s0"
    and st: "iterationStep e cfg pd od i s0 = Continue st"
    by (auto split: option.splits if_splits step_outcome.splits)
  from iterationStep_Continue[OF st Suc.IH[OF s0]] show ?case .
qed

lemma stateAt_smartBuildFrom:
  "stateAt e cfg pd od M t i = Some st \<Longrightarrow>
     smartBuild e cfg pd od M t = smartBuildFrom e cfg pd od M i st"
proof (induction i arbitrary: st)
  case 0
  then show ?case by (simp add: smartBuild_def)
next
  case (Suc i)
  then obtain s0 where s0: "stateAt e cfg pd od M t i = Some s0"
    and lt: "i < M"
    and st: "iterationStep e cfg pd od i s0 = Continue st"
    by (auto split: option.splits if_splits step_outcome.splits)
  from Suc.IH[OF s0] have "smartBuild e cfg pd od M t = smartBuildFrom e cfg pd od M i s0" .
  also from lt st have "\<dots> = smartBuildFrom e cfg pd od M (Suc i) st"
    by (subst smartBuildFrom.simps) simp
  finally show ?case .
qed


lemma fixingPhase_Decline:
  assumes "advisor e i (ls_tree st) lb (previousFixes st) = Answered text fixes"
    and "regexTest cannotFixPattern (map toLowerAscii text)"
  shows "fixingPhase e pd i lb st =
     Decline
       \<lparr> success = False, iterations = i + 1,
         phases = ls_phases st @
           [\<lparr> phase = ''fixing'', iteration = i, result = ''cannot_fix'',
              details = ReasonDetails (extractCannotFixReason (jsonAnalysis e) text) \<rparr>],
         aiAnalyses = ls_aiAnalyses st @
           [\<lparr> ai_iteration = i, ai_analysis = text, ai_fixes = [], ai_cannotFix = True \<rparr>],
         finalBuild = lastBuildResult st, cannotFix = True,
         cannotFixReason = Some (extractCannotFixReason (jsonAnalysis e) text) \<rparr>
       (st\<lparr> ls_phases := ls_phases st @
           [\<lparr> phase = ''fixing'', iteration = i, result = ''cannot_fix'',
              details = ReasonDetails (extractCannotFixReason (jsonAnalysis e) text) \<rparr>],
          ls_aiAnalyses := ls_aiAnalyses st @
           [\<lparr> ai_iteration = i, ai_analysis = text, ai_fixes = [], ai_cannotFix = True \<rparr>] \<rparr>)"
  using assms
  by (simp add: fixingPhase_def analyzeAndFixBuildFailure_def pushPhase_def Let_def)



text \<open>
  C8 (amended): when all \<open>MAX_ITERATIONS\<close> iterations end without a successful build,
  \<open>smartBuild\<close> returns a result that is not successful, with iteration count
  \<open>MAX_ITERATIONS\<close>, the last build result, the flag \<open>cannotFix\<close> set and the fixed sentence
  \<^verbatim>\<open>Exhausted all retry attempts without successful compilation\<close> as \<open>cannotFixReason\<close>; there
  is no status of its own for it. A result returned on the advisor's cannot-fix verdict carries
  the same flag. The two differ in the phase history (no \<open>cannot_fix\<close> record against a last
  record \<open>cannot_fix\<close>); the response of the agent route has status \<^verbatim>\<open>failed\<close> for both and
  its \<^verbatim>\<open>error\<close> member differs whenever the advisor's reason is not that sentence.
\<close>

theorem C8_exhaustion_and_decline:
  assumes "stateAt e cfg projectDir outputDir MAX_ITERATIONS t MAX_ITERATIONS = Some st"
  shows "smartBuild e cfg projectDir outputDir MAX_ITERATIONS t
       = Some (\<lparr> success = False, iterations = MAX_ITERATIONS, phases = ls_phases st,
                  aiAnalyses = ls_aiAnalyses st, finalBuild = lastBuildResult st, cannotFix = True,
                  cannotFixReason = Some ''Exhausted all retry attempts without successful compilation'' \<rparr>,
               st)
     \<and> list_all (\<lambda>p. result p \<noteq> ''cannot_fix'') (ls_phases st)
     \<and> rp_status (agentResponse x (exhausted MAX_ITERATIONS st)) = ''failed''
     \<and> rp_error (agentResponse x (exhausted MAX_ITERATIONS st))
          = Some ''Exhausted all retry attempts without successful compilation''
     \<and> (fixingPhase e' projectDir' i' lastBuild' st0 = Decline declined st1 \<longrightarrow>
          success declined = False \<and> cannotFix declined = True
          \<and> result (last (phases declined)) = ''cannot_fix''
          \<and> declined \<noteq> exhausted MAX_ITERATIONS st
          \<and> rp_status (agentResponse x declined) = ''failed''
          \<and> (cannotFixReason declined
                \<noteq> Some ''Exhausted all retry attempts without successful compilation'' \<longrightarrow>
              rp_error (agentResponse x declined)
                \<noteq> rp_error (agentResponse x (exhausted MAX_ITERATIONS st))))"
proof -
  have "smartBuild e cfg projectDir outputDir MAX_ITERATIONS t
      = smartBuildFrom e cfg projectDir outputDir MAX_ITERATIONS MAX_ITERATIONS st"
    by (rule stateAt_smartBuildFrom[OF assms])
  also have "\<dots> = Some (exhausted MAX_ITERATIONS st, st)"
    by (subst smartBuildFrom.simps) simp
  finally have A: "smartBuild e cfg projectDir outputDir MAX_ITERATIONS t
       = Some (\<lparr> success = False, iterations = MAX_ITERATIONS, phases = ls_phases st,
                  aiAnalyses = ls_aiAnalyses st, finalBuild = lastBuildResult st, cannotFix = True,
                  cannotFixReason = Some ''Exhausted all retry attempts without successful compilation'' \<rparr>,
               st)"
    by (simp only: exhausted_def)
  from stateAt_inv[OF assms]
  have B: "list_all (\<lambda>p. result p \<noteq> ''cannot_fix'') (ls_phases st)"
    by (auto simp: reachableInv_def list_all_iff)
  have R: "rp_status (agentResponse x (exhausted MAX_ITERATIONS st)) = ''failed''"
    "rp_error (agentResponse x (exhausted MAX_ITERATIONS st))
          = Some ''Exhausted all retry attempts without successful compilation''"
    by (simp_all add: agentResponse_def exhausted_def Let_def)
  have C: "success declined = False \<and> cannotFix declined = True
          \<and> result (last (phases declined)) = ''cannot_fix''
          \<and> declined \<noteq> exhausted MAX_ITERATIONS st
          \<and> rp_status (agentResponse x declined) = ''failed''
          \<and> (cannotFixReason declined
                \<noteq> Some ''Exhausted all retry attempts without successful compilation'' \<longrightarrow>
              rp_error (agentResponse x declined)
                \<noteq> rp_error (agentResponse x (exhausted MAX_ITERATIONS st)))"
    if D: "fixingPhase e' projectDir' i' lastBuild' st0 = Decline declined st1"
  proof -
    from D have L: "phases declined \<noteq> []" "result (last (phases declined)) = ''cannot_fix''"
      "success declined = False" "cannotFix declined = True"
      by (auto simp: fixingPhase_def pushPhase_def Let_def split: if_splits)
    from L(1) have "last (phases declined) \<in> set (phases declined)" by simp
    with L(2) B have "phases declined \<noteq> phases (exhausted MAX_ITERATIONS st)"
      by (auto simp: list_all_iff exhausted_def)
    then have N: "declined \<noteq> exhausted MAX_ITERATIONS st" by auto
    from L(3) have S: "rp_status (agentResponse x declined) = ''failed''"
      by (simp add: agentResponse_def Let_def)
    have E: "rp_error (agentResponse x declined)
                \<noteq> rp_error (agentResponse x (exhausted MAX_ITERATIONS st))"
      if "cannotFixReason declined
                \<noteq> Some ''Exhausted all retry attempts without successful compilation''"
      using that L(3) unfolding R(2)
      by (auto simp: agentResponse_def Let_def split: option.splits)
    from L N S E show ?thesis by blast
  qed
  from A B R C show ?thesis by blast
qed

text \<open>The theorem at work: three iterations with an advisor that cannot be reached, against a
  decline whose reason is the advisor's text.\<close>

theorem C8_exhaustion_and_decline_witness:
  "\<exists>st declined st1.
     smartBuild exEnvUnreachable config_docker ''up'' ''out'' 3 exTree
       = Some (\<lparr> success = False, iterations = 3, phases = ls_phases st,
                  aiAnalyses = ls_aiAnalyses st, finalBuild = lastBuildResult st, cannotFix = True,
                  cannotFixReason = Some ''Exhausted all retry attempts without successful compilation'' \<rparr>,
               st)
     \<and> fixingPhase exEnvDecline ''up'' 1
          \<lparr> br_success = False, exitCode = Some 1, logs = \<lparr> stdout = [], stderr = [] \<rparr>, br_error = None \<rparr>
          (initialState exTree) = Decline declined st1
     \<and> cannotFix declined
     \<and> cannotFixReason declined = Some exDeclineText
     \<and> rp_error (agentResponse (\<lambda>l. []) declined) = Some exDeclineText
     \<and> rp_error (agentResponse (\<lambda>l. []) (exhausted 3 st))
          = Some ''Exhausted all retry attempts without successful compilation''"
proof -
  define S where "S = the (stateAt exEnvUnreachable config_docker ''up'' ''out'' 3 exTree 3)"
  let ?b = "\<lparr> br_success = False, exitCode = Some 1, logs = \<lparr> stdout = [], stderr = [] \<rparr>, br_error = None \<rparr>"
  have "stateAt exEnvUnreachable config_docker ''up'' ''out'' 3 exTree 3 \<noteq> None" by code_simp
  then have reach: "stateAt exEnvUnreachable config_docker ''up'' ''out'' 3 exTree 3 = Some S"
    by (auto simp: S_def)
  have adv: "advisor exEnvDecline 1 (ls_tree (initialState exTree)) ?b (previousFixes (initialState exTree))
      = Answered exDeclineText []"
    by (simp add: exEnvDecline_def)
  have verdict: "regexTest cannotFixPattern (map toLowerAscii exDeclineText)" by code_simp
  have reason: "extractCannotFixReason (jsonAnalysis exEnvDecline) exDeclineText = exDeclineText"
    by code_simp
  have ne: "exDeclineText \<noteq> ''Exhausted all retry attempts without successful compilation''"
    by code_simp
  have ne0: "exDeclineText \<noteq> []" by code_simp
  from fixingPhase_Decline[OF adv verdict, of "''up''"] reason
  obtain declined st1 where D: "fixingPhase exEnvDecline ''up'' 1 ?b (initialState exTree) = Decline declined st1"
    and cf: "cannotFix declined" and cr: "cannotFixReason declined = Some exDeclineText"
    and ns: "\<not> success declined"
    by simp
  note T = C8_exhaustion_and_decline[OF reach, of "\<lambda>l. []" exEnvDecline "''up''" 1 ?b "initialState exTree" declined st1]
  from T have sb: "smartBuild exEnvUnreachable config_docker ''up'' ''out'' 3 exTree
       = Some (\<lparr> success = False, iterations = 3, phases = ls_phases S,
                  aiAnalyses = ls_aiAnalyses S, finalBuild = lastBuildResult S, cannotFix = True,
                  cannotFixReason = Some ''Exhausted all retry attempts without successful compilation'' \<rparr>,
               S)" by blast
  from T have ex: "rp_error (agentResponse (\<lambda>l. []) (exhausted 3 S))
          = Some ''Exhausted all retry attempts without successful compilation''" by blast
  from cr ns ne0 have de: "rp_error (agentResponse (\<lambda>l. []) declined) = Some exDeclineText"
    by (simp add: agentResponse_def Let_def)
  from sb D cf cr de ex show ?thesis by blast
qed

text \<open>
  C8, the sentence as written: there is no status \<open>exhausted\<close>, and the caller cannot always
  tell the two outcomes apart. With two iterations, a run that exhausts them and a run whose
  advisor declines at the last one, giving the exhaustion sentence as its reason, agree on
  \<open>success\<close>, \<open>iterations\<close>, \<open>cannotFix\<close>, \<open>cannotFixReason\<close> and \<open>finalBuild\<close>, and the
  agent route answers both with the same response.
\<close>

theorem C8_decline_reported_as_exhaustion:
  "\<exists>r1 s1 r2 s2.
     smartBuild exEnvUnreachable config_docker ''up'' ''out'' 2 exTree = Some (r1, s1)
     \<and> stateAt exEnvUnreachable config_docker ''up'' ''out'' 2 exTree 2 = Some s1
     \<and> r1 = exhausted 2 s1
     \<and> smartBuild exEnvLastWord config_docker ''up'' ''out'' 2 exTree = Some (r2, s2)
     \<and> result (last (phases r2)) = ''cannot_fix''
     \<and> cannotFix r1 \<and> cannotFix r2
     \<and> success r1 = success r2
     \<and> iterations r1 = iterations r2
     \<and> cannotFixReason r1 = cannotFixReason r2
     \<and> finalBuild r1 = finalBuild r2
     \<and> (\<forall>x. agentResponse x r1 = agentResponse x r2)"
proof -
  let ?a = "smartBuild exEnvUnreachable config_docker ''up'' ''out'' 2 exTree"
  let ?b = "smartBuild exEnvLastWord config_docker ''up'' ''out'' 2 exTree"
  let ?s = "stateAt exEnvUnreachable config_docker ''up'' ''out'' 2 exTree 2"
  have "?s \<noteq> None" by code_simp
  then obtain s1 where s1: "?s = Some s1" by auto
  from stateAt_smartBuildFrom[OF s1]
  have a: "?a = Some (exhausted 2 s1, s1)"
    by (subst (asm) smartBuildFrom.simps) simp
  have e: "map_option (\<lambda>(r, s). (result (last (phases r)), cannotFix r, success r, iterations r,
                                   cannotFixReason r)) ?b
      = Some (''cannot_fix'', True, False, 2,
              Some ''Exhausted all retry attempts without successful compilation'')"
    by code_simp
  then obtain r2 s2 where b: "?b = Some (r2, s2)" by (cases ?b) auto
  from e b have 1: "result (last (phases r2)) = ''cannot_fix''" and 2: "cannotFix r2"
    and 3: "success (exhausted 2 s1) = success r2"
    and 4: "iterations (exhausted 2 s1) = iterations r2"
    and 5: "cannotFixReason (exhausted 2 s1) = cannotFixReason r2"
    by (simp_all add: exhausted_def)
  have "map_option (\<lambda>s. lastBuildResult s) ?s = map_option (\<lambda>(r, s). finalBuild r) ?b"
    by code_simp
  with s1 b have 6: "finalBuild (exhausted 2 s1) = finalBuild r2"
    by (simp add: exhausted_def)
  have 7: "cannotFix (exhausted 2 s1)" by (simp add: exhausted_def)
  from 3 4 5 6 have 8: "agentResponse x (exhausted 2 s1) = agentResponse x r2" for x
    by (simp add: agentResponse_def)
  from a s1 b 1 2 3 4 5 6 7 8 show ?thesis by blast
qed

subsection \<open>The checks after a run that exited with code zero\<close>

lemma firstSome_map: "(firstSome (map f xs) \<noteq> None) = (\<exists>x \<in> set xs. f x \<noteq> None)"
proof (induction xs)
  case Nil
  then show ?case by simp
next
  case (Cons x xs)
  then show ?case by (cases "f x") simp_all
qed

lemma run_split:
  "(\<exists>k \<le> length (takeWhile c s). n \<le> k \<and> P (drop k s))
     = (\<exists>m rest. s = m @ rest \<and> list_all c m \<and> n \<le> length m \<and> P rest)"
proof
  assume "\<exists>k \<le> length (takeWhile c s). n \<le> k \<and> P (drop k s)"
  then obtain k where k: "k \<le> length (takeWhile c s)" "n \<le> k" "P (drop k s)" by blast
  have "set (take k s) \<subseteq> set (takeWhile c s)"
  proof -
    have "take k s = take k (takeWhile c s @ dropWhile c s)" by simp
    also have "\<dots> = take k (takeWhile c s) @ take (k - length (takeWhile c s)) (dropWhile c s)"
      by (rule take_append)
    also have "\<dots> = take k (takeWhile c s)" using k(1) by simp
    finally have "take k s = take k (takeWhile c s)" .
    then show ?thesis using set_take_subset[of k "takeWhile c s"] by simp
  qed
  then have "list_all c (take k s)" by (auto simp: list_all_iff dest: set_takeWhileD)
  moreover have "s = take k s @ drop k s" by simp
  moreover have "n \<le> length (take k s)"
    using k(1) k(2) length_takeWhile_le[of c s] by simp
  ultimately show "\<exists>m rest. s = m @ rest \<and> list_all c m \<and> n \<le> length m \<and> P rest"
    using k(3) by blast
next
  assume "\<exists>m rest. s = m @ rest \<and> list_all c m \<and> n \<le> length m \<and> P rest"
  then obtain m rest where m: "s = m @ rest" "list_all c m" "n \<le> length m" "P rest" by blast
  from m(2) have "takeWhile c (m @ rest) = m @ takeWhile c rest"
    by (simp add: list_all_iff takeWhile_append2)
  with m(1) have "length m \<le> length (takeWhile c s)" by simp
  moreover from m(1) have "drop (length m) s = rest" by simp
  ultimately show "\<exists>k \<le> length (takeWhile c s). n \<le> k \<and> P (drop k s)"
    using m(3) m(4) by blast
qed

lemma matchAtoms_Lit:
  "(matchAtoms (Lit l # as) s \<noteq> None) = (\<exists>rest. s = l @ rest \<and> matchAtoms as rest \<noteq> None)"
  by (auto simp: prefix_def)

lemma matchAtoms_One:
  "(matchAtoms (One c # as) s \<noteq> None) = (\<exists>x rest. s = x # rest \<and> c x \<and> matchAtoms as rest \<noteq> None)"
  by (cases s) auto

lemma matchAtoms_Star:
  "(matchAtoms (Star c # as) s \<noteq> None)
     = (\<exists>m rest. s = m @ rest \<and> list_all c m \<and> matchAtoms as rest \<noteq> None)"
proof -
  have "(matchAtoms (Star c # as) s \<noteq> None)
      = (\<exists>k \<in> set (rev [0 ..< Suc (length (takeWhile c s))]). matchAtoms as (drop k s) \<noteq> None)"
    by (simp only: matchAtoms.simps firstSome_map)
  also have "\<dots> = (\<exists>k \<le> length (takeWhile c s). 0 \<le> k \<and> matchAtoms as (drop k s) \<noteq> None)"
    by (auto simp del: upt_Suc simp: less_Suc_eq_le)
  also have "\<dots> = (\<exists>m rest. s = m @ rest \<and> list_all c m \<and> 0 \<le> length m \<and> matchAtoms as rest \<noteq> None)"
    by (rule run_split)
  finally show ?thesis by simp
qed

lemma matchAtoms_Plus:
  "(matchAtoms (Plus c # as) s \<noteq> None)
     = (\<exists>m rest. s = m @ rest \<and> m \<noteq> [] \<and> list_all c m \<and> matchAtoms as rest \<noteq> None)"
proof -
  have "(matchAtoms (Plus c # as) s \<noteq> None)
      = (\<exists>k \<in> set (rev [1 ..< Suc (length (takeWhile c s))]). matchAtoms as (drop k s) \<noteq> None)"
    by (simp only: matchAtoms.simps firstSome_map)
  also have "\<dots> = (\<exists>k \<le> length (takeWhile c s). 1 \<le> k \<and> matchAtoms as (drop k s) \<noteq> None)"
    by (auto simp del: upt_Suc simp: less_Suc_eq_le)
  also have "\<dots> = (\<exists>m rest. s = m @ rest \<and> list_all c m \<and> 1 \<le> length m \<and> matchAtoms as rest \<noteq> None)"
    by (rule run_split)
  also have "\<dots> = (\<exists>m rest. s = m @ rest \<and> m \<noteq> [] \<and> list_all c m \<and> matchAtoms as rest \<noteq> None)"
    by (auto simp: Suc_le_eq)
  finally show ?thesis .
qed

lemma matchAlts_single: "matchAlts [a] s = matchAtoms a s"
  by (cases "matchAtoms a s") (simp_all add: matchAlts_def)

lemma regexTest_single:
  "regexTest [a] s = (\<exists>pre rest. s = pre @ rest \<and> matchAtoms a rest \<noteq> None)"
proof
  assume "regexTest [a] s"
  then obtain k where "k \<le> length s" "matchAtoms a (drop k s) \<noteq> None"
    by (auto simp del: upt_Suc simp: regexTest_def matchAlts_single list_ex_iff less_Suc_eq_le)
  moreover have "s = take k s @ drop k s" by simp
  ultimately show "\<exists>pre rest. s = pre @ rest \<and> matchAtoms a rest \<noteq> None" by blast
next
  assume "\<exists>pre rest. s = pre @ rest \<and> matchAtoms a rest \<noteq> None"
  then obtain pre rest where p: "s = pre @ rest" "matchAtoms a rest \<noteq> None" by blast
  then have "length pre \<in> set [0 ..< Suc (length s)]" "matchAlts [a] (drop (length pre) s) \<noteq> None"
    by (simp_all del: upt_Suc add: matchAlts_single)
  then show "regexTest [a] s" unfolding regexTest_def list_ex_iff by blast
qed

lemma regexTestLineStart_single:
  "regexTestLineStart [a] s
     = (\<exists>pre rest. s = pre @ rest \<and> (pre = [] \<or> isLineTerminator (last pre)) \<and> matchAtoms a rest \<noteq> None)"
proof
  assume "regexTestLineStart [a] s"
  then obtain k where k: "k \<le> length s" "k = 0 \<or> isLineTerminator (s ! (k - 1))"
      "matchAtoms a (drop k s) \<noteq> None"
    by (auto simp del: upt_Suc simp: regexTestLineStart_def matchAlts_single list_ex_iff less_Suc_eq_le)
  have "take k s = [] \<or> isLineTerminator (last (take k s))"
  proof (cases "k = 0")
    case True
    then show ?thesis by simp
  next
    case False
    with k(1) have "take k s \<noteq> []" by auto
    then have "last (take k s) = take k s ! (length (take k s) - 1)" by (rule last_conv_nth)
    also have "\<dots> = s ! (k - 1)" using k(1) False by simp
    finally show ?thesis using k(2) False by simp
  qed
  moreover have "s = take k s @ drop k s" by simp
  ultimately show "\<exists>pre rest. s = pre @ rest \<and> (pre = [] \<or> isLineTerminator (last pre)) \<and> matchAtoms a rest \<noteq> None"
    using k(3) by blast
next
  assume "\<exists>pre rest. s = pre @ rest \<and> (pre = [] \<or> isLineTerminator (last pre)) \<and> matchAtoms a rest \<noteq> None"
  then obtain pre rest where p: "s = pre @ rest" "pre = [] \<or> isLineTerminator (last pre)"
      "matchAtoms a rest \<noteq> None" by blast
  have "length pre = 0 \<or> isLineTerminator (s ! (length pre - 1))"
  proof (cases "pre = []")
    case True
    then show ?thesis by simp
  next
    case False
    then have "last pre = pre ! (length pre - 1)" by (rule last_conv_nth)
    also have "\<dots> = s ! (length pre - 1)" using p(1) False by (simp add: nth_append)
    finally show ?thesis using p(2) False by simp
  qed
  moreover from p have "length pre \<in> set [0 ..< Suc (length s)]" "matchAlts [a] (drop (length pre) s) \<noteq> None"
    by (simp_all del: upt_Suc add: matchAlts_single)
  ultimately show "regexTestLineStart [a] s" unfolding regexTestLineStart_def list_ex_iff by blast
qed

lemma rustcErrorCode_iff:
  "regexTest rustcErrorCode s
     = (\<exists>pre ds post. s = pre @ ''error[E'' @ ds @ '']'' @ post \<and> ds \<noteq> [] \<and> list_all isDigit ds)"
  unfolding rustcErrorCode_def regexTest_single matchAtoms_Lit matchAtoms_Plus
  by (simp del: append_assoc) blast

lemma abortingDueTo_iff:
  "regexTestLineStart abortingDueTo s
     = (\<exists>pre mid post. s = pre @ ''error:'' @ mid @ ''aborting due to'' @ post
          \<and> (pre = [] \<or> isLineTerminator (last pre)) \<and> list_all anyChar mid)"
  unfolding abortingDueTo_def regexTestLineStart_single matchAtoms_Lit matchAtoms_Star
  by simp blast

lemma lit_star_lit_one_lit:
  "regexTest [[Lit a, Star c, Lit b, One d, Lit e]] s
     = (\<exists>pre mid x post. s = pre @ a @ mid @ b @ [x] @ e @ post \<and> list_all c mid \<and> d x)"
proof
  assume "regexTest [[Lit a, Star c, Lit b, One d, Lit e]] s"
  then obtain pre r1 where 1: "s = pre @ r1" "matchAtoms [Lit a, Star c, Lit b, One d, Lit e] r1 \<noteq> None"
    unfolding regexTest_single by blast
  from 1(2) obtain r2 where 2: "r1 = a @ r2" "matchAtoms [Star c, Lit b, One d, Lit e] r2 \<noteq> None"
    unfolding matchAtoms_Lit by blast
  from 2(2) obtain mid r3 where 3: "r2 = mid @ r3" "list_all c mid" "matchAtoms [Lit b, One d, Lit e] r3 \<noteq> None"
    unfolding matchAtoms_Star by blast
  from 3(3) obtain r4 where 4: "r3 = b @ r4" "matchAtoms [One d, Lit e] r4 \<noteq> None"
    unfolding matchAtoms_Lit by blast
  from 4(2) obtain x r5 where 5: "r4 = x # r5" "d x" "matchAtoms [Lit e] r5 \<noteq> None"
    unfolding matchAtoms_One by blast
  from 5(3) obtain post where 6: "r5 = e @ post"
    unfolding matchAtoms_Lit by blast
  from 1(1) 2(1) 3(1) 4(1) 5(1) 6 have "s = pre @ a @ mid @ b @ [x] @ e @ post" by simp
  with 3(2) 5(2) show "\<exists>pre mid x post. s = pre @ a @ mid @ b @ [x] @ e @ post \<and> list_all c mid \<and> d x"
    by blast
next
  assume "\<exists>pre mid x post. s = pre @ a @ mid @ b @ [x] @ e @ post \<and> list_all c mid \<and> d x"
  then obtain pre mid x post where p: "s = pre @ a @ mid @ b @ [x] @ e @ post" "list_all c mid" "d x"
    by blast
  have "matchAtoms [Lit e] (e @ post) \<noteq> None" unfolding matchAtoms_Lit by simp
  with p(3) have "matchAtoms [One d, Lit e] (x # e @ post) \<noteq> None" unfolding matchAtoms_One by blast
  then have "matchAtoms [Lit b, One d, Lit e] (b @ x # e @ post) \<noteq> None" unfolding matchAtoms_Lit by blast
  with p(2) have "matchAtoms [Star c, Lit b, One d, Lit e] (mid @ b @ x # e @ post) \<noteq> None"
    unfolding matchAtoms_Star by blast
  then have "matchAtoms [Lit a, Star c, Lit b, One d, Lit e] (a @ mid @ b @ x # e @ post) \<noteq> None"
    unfolding matchAtoms_Lit by blast
  moreover from p(1) have "s = pre @ (a @ mid @ b @ x # e @ post)" by simp
  ultimately show "regexTest [[Lit a, Star c, Lit b, One d, Lit e]] s"
    unfolding regexTest_single by blast
qed

lemma errorCargoBuild_iff:
  "regexTest errorCargoBuild s
     = (\<exists>pre mid c post. s = pre @ ''error'' @ mid @ ''cargo'' @ [c] @ ''build'' @ post
          \<and> list_all anyChar mid \<and> anyChar c)"
  unfolding errorCargoBuild_def by (rule lit_star_lit_one_lit)

lemma includesStr_iff: "includesStr s sub = (\<exists>pre post. s = pre @ sub @ post)"
  by (simp add: includesStr_def sublist_def)

lemma verifyBuildArtifacts_iff:
  "verifyBuildArtifacts t outputDir
     = (\<exists>files. readdir t (pathJoin3 outputDir ''target'' ''deploy'') = Some files
          \<and> (\<exists>f \<in> set files. suffix ''.so'' f))"
  by (auto simp: verifyBuildArtifacts_def list_ex_iff endsWith_def split: option.splits)

lemma detectBuildErrorsInLogs_iff:
  "detectBuildErrorsInLogs \<lparr> stdout = out, stderr = err \<rparr>
     = ((\<exists>pre ds post. out @ [CHR 0x0A] @ err = pre @ ''error[E'' @ ds @ '']'' @ post
            \<and> ds \<noteq> [] \<and> list_all isDigit ds)
        \<or> (\<exists>pre mid post. out @ [CHR 0x0A] @ err = pre @ ''error:'' @ mid @ ''aborting due to'' @ post
            \<and> (pre = [] \<or> isLineTerminator (last pre)) \<and> list_all anyChar mid)
        \<or> (\<exists>pre mid c post. map toLowerAscii (out @ [CHR 0x0A] @ err)
              = pre @ ''error'' @ mid @ ''cargo'' @ [c] @ ''build'' @ post
            \<and> list_all anyChar mid \<and> anyChar c)
        \<or> (\<exists>pre post. out @ [CHR 0x0A] @ err = pre @ ''Failed to obtain package metadata'' @ post)
        \<or> (\<exists>pre post. out @ [CHR 0x0A] @ err = pre @ ''can't find library'' @ post))"
  unfolding detectBuildErrorsInLogs_def Let_def rustcErrorCode_iff abortingDueTo_iff
    errorCargoBuild_iff includesStr_iff
  by simp

text \<open>
  C7 (amended): a run that exits with code zero is treated as a success only when the
  directory \<^verbatim>\<open>target/deploy\<close> of the output directory can be listed and holds a name ending in
  \<^verbatim>\<open>.so\<close>, and the combined log (standard output, a line feed, standard error) has none of:
  \<^verbatim>\<open>error[E\<close>, digits, \<^verbatim>\<open>]\<close>; a line starting \<^verbatim>\<open>error:\<close> that goes on to
  \<^verbatim>\<open>aborting due to\<close>; \<^verbatim>\<open>error\<close> followed on the same line by \<^verbatim>\<open>cargo\<close>, one character
  and \<^verbatim>\<open>build\<close>, in any case of the letters; \<^verbatim>\<open>Failed to obtain package metadata\<close>;
  \<^verbatim>\<open>can't find library\<close>. Then \<open>smartBuild\<close> returns the successful result. Otherwise the
  build result is marked failed (exit code still zero, an error message set) and the loop goes
  on. In both cases the phase record of the attempt, pushed before the checks, says
  \<open>success\<close>.
\<close>

theorem C7_zero_exit_is_checked:
  assumes "container e (hostConfig cfg) i (ensureDir (ls_tree st) outputDir) = (Exited 0 out err, t1)"
    and "combined = out @ [CHR 0x0A] @ err"
    and "hasArtifacts =
       (\<exists>files. readdir t1 (pathJoin3 outputDir ''target'' ''deploy'') = Some files
          \<and> (\<exists>f \<in> set files. suffix ''.so'' f))"
    and "hasErrorsInLogs =
       ((\<exists>pre ds post. combined = pre @ ''error[E'' @ ds @ '']'' @ post
            \<and> ds \<noteq> [] \<and> list_all isDigit ds)
        \<or> (\<exists>pre mid post. combined = pre @ ''error:'' @ mid @ ''aborting due to'' @ post
            \<and> (pre = [] \<or> isLineTerminator (last pre)) \<and> list_all anyChar mid)
        \<or> (\<exists>pre mid c post. map toLowerAscii combined
              = pre @ ''error'' @ mid @ ''cargo'' @ [c] @ ''build'' @ post
            \<and> list_all anyChar mid \<and> anyChar c)
        \<or> (\<exists>pre post. combined = pre @ ''Failed to obtain package metadata'' @ post)
        \<or> (\<exists>pre post. combined = pre @ ''can't find library'' @ post))"
    and "attempt = \<lparr> phase = ''building'', iteration = i, result = ''success'',
                     details = ExitCodeDetails (Some 0) \<rparr>"
    and "built = \<lparr> br_success = True, exitCode = Some 0, logs = \<lparr> stdout = out, stderr = err \<rparr>,
                   br_error = None \<rparr>"
  shows "(hasArtifacts \<and> \<not> hasErrorsInLogs \<longrightarrow>
            buildingPhase e cfg outputDir i st =
              Return \<lparr> success = True, iterations = i + 1, phases = ls_phases st @ [attempt],
                       aiAnalyses = ls_aiAnalyses st, finalBuild = Some built,
                       cannotFix = False, cannotFixReason = None \<rparr>
                (st\<lparr> ls_tree := t1, ls_phases := ls_phases st @ [attempt],
                    lastBuildResult := Some built, sandboxRuns := sandboxRuns st @ [i] \<rparr>))
     \<and> (\<not> hasArtifacts \<or> hasErrorsInLogs \<longrightarrow>
            buildingPhase e cfg outputDir i st =
              Continue
                (st\<lparr> ls_tree := t1, ls_phases := ls_phases st @ [attempt],
                    lastBuildResult := Some (built\<lparr> br_success := False,
                       br_error := Some (if \<not> hasArtifacts
                         then ''Build produced no .so artifacts '' @ [CHR 0xE2, CHR 0x80, CHR 0x94]
                              @ '' compilation likely failed''
                         else ''Build logs contain errors despite exit code 0'') \<rparr>),
                    sandboxRuns := sandboxRuns st @ [i] \<rparr>))"
proof -
  have a: "verifyBuildArtifacts t1 outputDir = hasArtifacts"
    unfolding assms(3) by (rule verifyBuildArtifacts_iff)
  have b: "detectBuildErrorsInLogs \<lparr> stdout = out, stderr = err \<rparr> = hasErrorsInLogs"
    unfolding assms(4) assms(2) by (rule detectBuildErrorsInLogs_iff)
  have x: "executeAnchorBuild (container e) cfg i (ensureDir (ls_tree st) outputDir) = (built, t1)"
    using assms(1) by (simp add: executeAnchorBuild_def assms(6))
  have s: "br_success built" "logs built = \<lparr> stdout = out, stderr = err \<rparr>" "exitCode built = Some 0"
    by (simp_all add: assms(6))
  have p: "postCheck t1 outputDir built =
      (if \<not> hasArtifacts \<or> hasErrorsInLogs
       then built\<lparr> br_success := False,
              br_error := Some (if \<not> hasArtifacts
                then ''Build produced no .so artifacts '' @ [CHR 0xE2, CHR 0x80, CHR 0x94]
                     @ '' compilation likely failed''
                else ''Build logs contain errors despite exit code 0'') \<rparr>
       else built)"
    using s(1) by (simp add: postCheck_def Let_def s(2) a b)
  have bp: "buildingPhase e cfg outputDir i st =
      (if br_success (postCheck t1 outputDir built)
       then Return \<lparr> success = True, iterations = i + 1, phases = ls_phases st @ [attempt],
                       aiAnalyses = ls_aiAnalyses st, finalBuild = Some (postCheck t1 outputDir built),
                       cannotFix = False, cannotFixReason = None \<rparr>
              (st\<lparr> ls_tree := t1, ls_phases := ls_phases st @ [attempt],
                  lastBuildResult := Some (postCheck t1 outputDir built),
                  sandboxRuns := sandboxRuns st @ [i] \<rparr>)
       else Continue
              (st\<lparr> ls_tree := t1, ls_phases := ls_phases st @ [attempt],
                  lastBuildResult := Some (postCheck t1 outputDir built),
                  sandboxRuns := sandboxRuns st @ [i] \<rparr>))"
    by (simp add: buildingPhase_def x Let_def pushPhase_def s assms(5))
  show ?thesis
  proof (cases "\<not> hasArtifacts \<or> hasErrorsInLogs")
    case True
    with p have "postCheck t1 outputDir built = built\<lparr> br_success := False,
              br_error := Some (if \<not> hasArtifacts
                then ''Build produced no .so artifacts '' @ [CHR 0xE2, CHR 0x80, CHR 0x94]
                     @ '' compilation likely failed''
                else ''Build logs contain errors despite exit code 0'') \<rparr>"
      by (simp only: if_True)
    with True show ?thesis unfolding bp by simp
  next
    case False
    with p have "postCheck t1 outputDir built = built" by (simp only: if_False)
    with False s(1) show ?thesis unfolding bp by simp
  qed
qed

text \<open>The theorem at work: a run that leaves a \<^verbatim>\<open>.so\<close> file and a clean log, and a run that
  leaves nothing.\<close>

theorem C7_zero_exit_is_checked_witness:
  "(\<exists>r st'. buildingPhase exEnvZeroExit config_docker ''out'' 0 (initialState exTree) = Return r st'
       \<and> success r \<and> iterations r = 1
       \<and> phases r = [\<lparr> phase = ''building'', iteration = 0, result = ''success'',
                         details = ExitCodeDetails (Some 0) \<rparr>])
   \<and> (\<exists>st' b. buildingPhase exEnvZeroExitEmpty config_docker ''out'' 0 (initialState exTree) = Continue st'
       \<and> lastBuildResult st' = Some b \<and> \<not> br_success b \<and> exitCode b = Some 0 \<and> br_error b \<noteq> None
       \<and> ls_phases st' = [\<lparr> phase = ''building'', iteration = 0, result = ''success'',
                              details = ExitCodeDetails (Some 0) \<rparr>])"
proof -
  have c1: "container exEnvZeroExit (hostConfig config_docker) 0
      (ensureDir (ls_tree (initialState exTree)) ''out'') = (Exited 0 ''Finished release'' [], exOutTree)"
    by (simp add: exEnvZeroExit_def)
  have "verifyBuildArtifacts exOutTree ''out''" by code_simp
  then have ok1: "\<exists>files. readdir exOutTree (pathJoin3 ''out'' ''target'' ''deploy'') = Some files
          \<and> (\<exists>f \<in> set files. suffix ''.so'' f)"
    unfolding verifyBuildArtifacts_iff .
  have "\<not> detectBuildErrorsInLogs \<lparr> stdout = ''Finished release'', stderr = [] \<rparr>" by code_simp
  note ok2 = this[unfolded detectBuildErrorsInLogs_iff]
  define T where "T = ensureDir (ls_tree (initialState exTree)) ''out''"
  have c2: "container exEnvZeroExitEmpty (hostConfig config_docker) 0
      (ensureDir (ls_tree (initialState exTree)) ''out'') = (Exited 0 ''Finished release'' [], T)"
    by (simp add: exEnvZeroExitEmpty_def T_def)
  have "\<not> verifyBuildArtifacts (ensureDir (ls_tree (initialState exTree)) ''out'') ''out''"
    by code_simp
  then have "\<not> verifyBuildArtifacts T ''out''" by (simp add: T_def)
  note no = this[unfolded verifyBuildArtifacts_iff]
  have i: "ls_phases (initialState exTree) = []" by (simp add: initialState_def)
  from C7_zero_exit_is_checked[OF c1 refl refl refl refl refl, THEN conjunct1] ok1 ok2
  have A: "\<exists>r st'. buildingPhase exEnvZeroExit config_docker ''out'' 0 (initialState exTree) = Return r st'
       \<and> success r \<and> iterations r = 1
       \<and> phases r = [\<lparr> phase = ''building'', iteration = 0, result = ''success'',
                         details = ExitCodeDetails (Some 0) \<rparr>]"
    by (simp add: i)
  from C7_zero_exit_is_checked[OF c2 refl refl refl refl refl, THEN conjunct2] no
  have B: "\<exists>st' b. buildingPhase exEnvZeroExitEmpty config_docker ''out'' 0 (initialState exTree) = Continue st'
       \<and> lastBuildResult st' = Some b \<and> \<not> br_success b \<and> exitCode b = Some 0 \<and> br_error b \<noteq> None
       \<and> ls_phases st' = [\<lparr> phase = ''building'', iteration = 0, result = ''success'',
                              details = ExitCodeDetails (Some 0) \<rparr>]"
    by (simp add: i)
  from A B show ?thesis by blast
qed

text \<open>
  C7, the sentence as written: the attempt is not recorded as failed everywhere. A single
  iteration whose run exits with code zero and leaves no artifact gives a result that is not
  successful, with a final build marked failed, while the one building record of its phase
  history says \<open>success\<close>.
\<close>

theorem C7_failed_check_keeps_success_record:
  "\<exists>r st b. smartBuild exEnvZeroExitEmpty config_docker ''up'' ''out'' 1 exTree = Some (r, st)
     \<and> sandboxRuns st = [0]
     \<and> readdir (ls_tree st) (pathJoin3 ''out'' ''target'' ''deploy'') = None
     \<and> \<not> success r
     \<and> finalBuild r = Some b \<and> \<not> br_success b \<and> exitCode b = Some 0
     \<and> filter (\<lambda>p. phase p = ''building'') (phases r)
         = [\<lparr> phase = ''building'', iteration = 0, result = ''success'',
              details = ExitCodeDetails (Some 0) \<rparr>]"
proof -
  let ?run = "smartBuild exEnvZeroExitEmpty config_docker ''up'' ''out'' 1 exTree"
  have "?run \<noteq> None" by code_simp
  then obtain r st where run: "?run = Some (r, st)" by (cases ?run) auto
  have "finalBuild (fst (the ?run)) \<noteq> None" by code_simp
  with run obtain b where b: "finalBuild r = Some b" by auto
  have "sandboxRuns (snd (the ?run)) = [0]" by code_simp
  moreover have "readdir (ls_tree (snd (the ?run))) (pathJoin3 ''out'' ''target'' ''deploy'') = None"
    by code_simp
  moreover have "\<not> success (fst (the ?run))" by code_simp
  moreover have "\<not> br_success (the (finalBuild (fst (the ?run))))" by code_simp
  moreover have "exitCode (the (finalBuild (fst (the ?run)))) = Some 0" by code_simp
  moreover have "filter (\<lambda>p. phase p = ''building'') (phases (fst (the ?run)))
         = [\<lparr> phase = ''building'', iteration = 0, result = ''success'',
              details = ExitCodeDetails (Some 0) \<rparr>]" by code_simp
  ultimately show ?thesis using run b by simp
qed

subsection \<open>Path normalisation and the file system\<close>

lemma splitOn_nonempty: "splitOn c s \<noteq> []"
  by (induction s) (auto split: list.splits)

lemma splitOn_append: "splitOn c (a @ c # b) = splitOn c a @ splitOn c b"
proof (induction a)
  case Nil
  then show ?case by simp
next
  case (Cons x a)
  then show ?case using splitOn_nonempty[of c a]
    by (auto split: list.splits)
qed

lemma splitOn_no_sep: "c \<notin> set s \<Longrightarrow> splitOn c s = [s]"
  by (induction s) auto

lemma splitOn_free: "s \<in> set (splitOn c x) \<Longrightarrow> c \<notin> set s"
proof (induction x arbitrary: s)
  case Nil
  then show ?case by simp
next
  case (Cons a x)
  then show ?case
    by (auto split: if_splits list.splits)
qed

lemma normalizeSegs_append:
  "normalizeSegs al res (xs @ ys) = normalizeSegs al (normalizeSegs al res xs) ys"
  by (induction xs arbitrary: res) auto

lemma normalizeSegs_valid: "validName f \<Longrightarrow> normalizeSegs al res [f] = res @ [f]"
  by (simp add: validName_def)

lemma normalizeSegs_no_dotdot:
  "''..'' \<notin> set ys \<Longrightarrow>
     normalizeSegs al res ys = res @ filter (\<lambda>s. s \<noteq> [] \<and> s \<noteq> ''.'') ys"
  by (induction ys arbitrary: res) auto

lemma normShape_step:
  assumes "normShape al res" "CHR ''/'' \<notin> set s"
  shows "normShape al (normalizeSegs al res [s])"
proof -
  from assms(1) obtain k rest where res: "res = replicate k ''..'' @ rest"
    and v: "list_all validName rest" and al: "al \<or> k = 0"
    by (auto simp: normShape_def)
  consider (skip) "s = [] \<or> s = ''.''" | (up) "s = ''..''" | (name) "validName s"
    using assms(2) by (auto simp: validName_def)
  then show ?thesis
  proof cases
    case skip
    then show ?thesis using assms(1) by auto
  next
    case name
    then have "normalizeSegs al res [s] = res @ [s]" by (rule normalizeSegs_valid)
    then have "normalizeSegs al res [s] = replicate k ''..'' @ (rest @ [s])"
      using res by simp
    moreover have "list_all validName (rest @ [s])" using v name by simp
    ultimately show ?thesis using al unfolding normShape_def by blast
  next
    case up
    show ?thesis
    proof (cases "rest = []")
      case False
      then have "last res = last rest" "res \<noteq> []" using res by auto
      moreover from v False have "validName (last rest)" by (simp add: list_all_iff)
      ultimately have "normalizeSegs al res [s] = butlast res" using up
        by (auto simp: validName_def)
      also have "\<dots> = replicate k ''..'' @ butlast rest" using res False
        by (simp add: butlast_append)
      finally have "normalizeSegs al res [s] = replicate k ''..'' @ butlast rest" .
      moreover have "list_all validName (butlast rest)"
        using v by (auto simp: list_all_iff dest: in_set_butlastD)
      ultimately show ?thesis using al unfolding normShape_def by blast
    next
      case True
      then have r: "res = replicate k ''..''" using res by simp
      show ?thesis
      proof (cases al)
        case al: True
        have "normalizeSegs al res [s] = replicate (Suc k) ''..''"
          using r up al by (cases k) (auto simp: replicate_append_same)
        then show ?thesis using al unfolding normShape_def
          by (intro exI[of _ "Suc k"] exI[of _ "[]"]) simp
      next
        case False
        with al r have "res = []" by simp
        with up False have "normalizeSegs al res [s] = []" by simp
        then show ?thesis unfolding normShape_def
          by (intro exI[of _ 0] exI[of _ "[]"]) simp
      qed
    qed
  qed
qed

lemma normShape_normalizeSegs:
  assumes "normShape al res" "\<forall>s \<in> set xs. CHR ''/'' \<notin> set s"
  shows "normShape al (normalizeSegs al res xs)"
  using assms
proof (induction xs arbitrary: res)
  case Nil
  then show ?case by simp
next
  case (Cons x xs)
  have "normalizeSegs al res (x # xs) = normalizeSegs al (normalizeSegs al res [x]) xs"
    using normalizeSegs_append[of al res "[x]" xs] by simp
  moreover have "normShape al (normalizeSegs al res [x])"
    using Cons.prems by (intro normShape_step) auto
  ultimately show ?case using Cons by simp
qed

lemma normShape_Nil: "normShape al []"
  unfolding normShape_def by (intro exI[of _ 0] exI[of _ "[]"]) simp

lemma normShape_segments: "normShape (\<not> isAbsolute p) (segments p)"
  unfolding segments_def
  by (intro normShape_normalizeSegs normShape_Nil) (auto dest: splitOn_free)


lemma splitOn_joinWith:
  assumes "segs \<noteq> []" "\<forall>s \<in> set segs. CHR ''/'' \<notin> set s"
  shows "splitOn (CHR ''/'') (joinWith ''/'' segs) = segs"
  using assms
proof (induction segs)
  case Nil
  then show ?case by simp
next
  case (Cons s segs)
  show ?case
  proof (cases segs)
    case Nil
    with Cons.prems show ?thesis by (simp add: splitOn_no_sep)
  next
    case (Cons t ss)
    have "splitOn (CHR ''/'') (s @ CHR ''/'' # joinWith ''/'' (t # ss))
        = splitOn (CHR ''/'') s @ splitOn (CHR ''/'') (joinWith ''/'' (t # ss))"
      by (rule splitOn_append)
    with Cons Cons.IH Cons.prems show ?thesis by (simp add: splitOn_no_sep)
  qed
qed

lemma normalizeSegs_dots:
  "al \<or> k = 0 \<Longrightarrow> normalizeSegs al (replicate m ''..'') (replicate k ''..'')
     = replicate (m + k) ''..''"
proof (induction k arbitrary: m)
  case 0
  then show ?case by simp
next
  case (Suc k)
  then have al: al by simp
  have "normalizeSegs al (replicate m ''..'') (replicate (Suc k) ''..'')
      = normalizeSegs al (replicate (Suc m) ''..'') (replicate k ''..'')"
    using al by (cases m) (auto simp: replicate_append_same)
  also have "\<dots> = replicate (Suc m + k) ''..''" using Suc.IH[of "Suc m"] al by simp
  finally show ?case by simp
qed

lemma normalizeSegs_names:
  "list_all validName rest \<Longrightarrow> normalizeSegs al res rest = res @ rest"
proof (induction rest arbitrary: res)
  case Nil
  then show ?case by simp
next
  case (Cons x rest)
  then have "validName x" by simp
  then have "normalizeSegs al res (x # rest) = normalizeSegs al (res @ [x]) rest"
    by (simp add: validName_def)
  with Cons show ?case by simp
qed

lemma normalizeSegs_fixed:
  assumes "normShape al segs"
  shows "normalizeSegs al [] segs = segs"
proof -
  from assms obtain k rest where segs: "segs = replicate k ''..'' @ rest"
    and v: "list_all validName rest" and al: "al \<or> k = 0"
    by (auto simp: normShape_def)
  have "normalizeSegs al [] segs
      = normalizeSegs al (normalizeSegs al (replicate 0 ''..'') (replicate k ''..'')) rest"
    using segs by (simp add: normalizeSegs_append)
  also have "\<dots> = normalizeSegs al (replicate k ''..'') rest"
    using normalizeSegs_dots[OF al, of 0] by simp
  also have "\<dots> = replicate k ''..'' @ rest" using v by (rule normalizeSegs_names)
  finally show ?thesis using segs by simp
qed

lemma normShape_nonempty:
  assumes "normShape al segs" "s \<in> set segs"
  shows "s \<noteq> [] \<and> CHR ''/'' \<notin> set s"
proof -
  from assms(1) obtain k rest where segs: "segs = replicate k ''..'' @ rest"
    and v: "list_all validName rest"
    unfolding normShape_def by blast
  from assms(2) segs have "s = ''..'' \<or> s \<in> set rest" by auto
  then show ?thesis
  proof
    assume "s = ''..''"
    then show ?thesis by simp
  next
    assume "s \<in> set rest"
    with v have "validName s" by (simp add: list_all_iff)
    then show ?thesis by (simp add: validName_def)
  qed
qed

lemma joinWith_Nil_iff:
  "(\<forall>s \<in> set segs. s \<noteq> []) \<Longrightarrow> (joinWith sep segs = []) = (segs = [])"
  by (induction sep segs rule: joinWith.induct) auto

lemma hd_joinWith:
  "segs \<noteq> [] \<Longrightarrow> hd segs \<noteq> [] \<Longrightarrow> hd (joinWith sep segs) = hd (hd segs)"
  by (induction sep segs rule: joinWith.induct) auto

lemma segments_simple:
  "segments ''.'' = []" "segments ''./'' = []" "segments ''/'' = []" "segments [] = []"
  by (simp_all add: segments_def isAbsolute_def)

lemma normalize_key:
  "isAbsolute (normalize j) = isAbsolute j \<and> segments (normalize j) = segments j"
proof (cases "j = []")
  case True
  then show ?thesis by (simp add: normalize_def segments_simple) (simp add: isAbsolute_def)
next
  case False
  let ?segs = "segments j"
  have shape: "normShape (\<not> isAbsolute j) ?segs" by (rule normShape_segments)
  have ne: "\<forall>s \<in> set ?segs. s \<noteq> []" and free: "\<forall>s \<in> set ?segs. CHR ''/'' \<notin> set s"
    using normShape_nonempty[OF shape] by auto
  show ?thesis
  proof (cases "?segs = []")
    case True
    with False show ?thesis
      by (auto simp: normalize_def Let_def segments_simple) (auto simp: isAbsolute_def)
  next
    case segs: False
    let ?body = "joinWith ''/'' ?segs"
    have body: "?body \<noteq> []" using joinWith_Nil_iff[OF ne] segs by simp
    have hd: "hd ?body \<noteq> CHR ''/''"
    proof -
      from segs have "hd ?segs \<in> set ?segs" by simp
      with ne free have "hd ?segs \<noteq> []" "CHR ''/'' \<notin> set (hd ?segs)" by auto
      then have "hd (hd ?segs) \<noteq> CHR ''/''" by (cases "hd ?segs") auto
      with hd_joinWith[OF segs \<open>hd ?segs \<noteq> []\<close>] show ?thesis by simp
    qed
    let ?pre = "if isAbsolute j then ''/'' else []"
    let ?post = "if trailingSep j then ''/'' else []"
    have N: "normalize j = ?pre @ ?body @ ?post"
      using False body by (simp add: normalize_def Let_def)
    have abs: "isAbsolute (normalize j) = isAbsolute j"
      using N hd body by (auto simp: isAbsolute_def)
    have sp: "splitOn (CHR ''/'') (?body @ ?post) = ?segs @ (if trailingSep j then [[]] else [])"
      using splitOn_append[of "CHR ''/''" ?body "[]"] splitOn_joinWith[OF segs free] by auto
    have "splitOn (CHR ''/'') (normalize j)
        = (if isAbsolute j then [[]] else []) @ ?segs @ (if trailingSep j then [[]] else [])"
      using N sp splitOn_append[of "CHR ''/''" "[]" "?body @ ?post"] by auto
    then have "segments (normalize j) = normalizeSegs (\<not> isAbsolute j) [] ?segs"
      using abs by (auto simp: segments_def normalizeSegs_append)
    with normalizeSegs_fixed[OF shape] abs show ?thesis by simp
  qed
qed

lemma keyOf_normalize: "keyOf (normalize j) = keyOf j"
  by (simp add: keyOf_def normalize_key)

lemma keyOf_pathJoin:
  assumes "a \<noteq> []"
  shows "keyOf (pathJoin a b) = (isAbsolute a, normalizeSegs (\<not> isAbsolute a) (segments a) (splitOn (CHR ''/'') b))"
proof (cases "b = []")
  case True
  with assms have "pathJoin a b = normalize a" by (simp add: pathJoin_def)
  then show ?thesis using True by (simp add: keyOf_normalize) (simp add: keyOf_def)
next
  case False
  with assms have "pathJoin a b = normalize (a @ CHR ''/'' # b)" by (simp add: pathJoin_def)
  then have "keyOf (pathJoin a b) = keyOf (a @ CHR ''/'' # b)" by (simp add: keyOf_normalize)
  moreover have "isAbsolute (a @ CHR ''/'' # b) = isAbsolute a" using assms by (simp add: isAbsolute_def)
  moreover have "segments (a @ CHR ''/'' # b)
      = normalizeSegs (\<not> isAbsolute (a @ CHR ''/'' # b)) (segments a) (splitOn (CHR ''/'') b)"
    unfolding segments_def using \<open>isAbsolute (a @ CHR ''/'' # b) = isAbsolute a\<close>
    by (simp add: splitOn_append normalizeSegs_append)
  ultimately show ?thesis by (simp add: keyOf_def)
qed


lemma splitOn_normalize:
  assumes "j \<noteq> []" "segments j \<noteq> []"
  shows "splitOn (CHR ''/'') (normalize j)
      = (if isAbsolute j then [[]] else []) @ segments j @ (if trailingSep j then [[]] else [])"
proof -
  let ?segs = "segments j"
  have shape: "normShape (\<not> isAbsolute j) ?segs" by (rule normShape_segments)
  have ne: "\<forall>s \<in> set ?segs. s \<noteq> []" and free: "\<forall>s \<in> set ?segs. CHR ''/'' \<notin> set s"
    using normShape_nonempty[OF shape] by auto
  let ?body = "joinWith ''/'' ?segs"
  have body: "?body \<noteq> []" using joinWith_Nil_iff[OF ne] assms(2) by simp
  let ?pre = "if isAbsolute j then ''/'' else []"
  let ?post = "if trailingSep j then ''/'' else []"
  have N: "normalize j = ?pre @ ?body @ ?post"
    using assms(1) body by (simp add: normalize_def Let_def)
  have sp: "splitOn (CHR ''/'') (?body @ ?post) = ?segs @ (if trailingSep j then [[]] else [])"
    using splitOn_append[of "CHR ''/''" ?body "[]"] splitOn_joinWith[OF assms(2) free] by auto
  show ?thesis
    using N sp splitOn_append[of "CHR ''/''" "[]" "?body @ ?post"] by auto
qed

lemma hd_splitOn: "hd (splitOn c s) = takeWhile (\<lambda>x. x \<noteq> c) s"
proof (induction s)
  case Nil
  then show ?case by simp
next
  case (Cons a s)
  then show ?case using splitOn_nonempty[of c s]
    by (cases "splitOn c s") auto
qed

lemma first_segment_parent:
  assumes "hd (splitOn (CHR ''/'') s) = ''..''"
  shows "s = ''..'' \<or> prefix ''../'' s"
proof -
  let ?P = "\<lambda>x. x \<noteq> CHR ''/''"
  from assms have tw: "takeWhile ?P s = ''..''" by (simp add: hd_splitOn)
  have s: "s = takeWhile ?P s @ dropWhile ?P s" by simp
  show ?thesis
  proof (cases "dropWhile ?P s")
    case Nil
    with s tw show ?thesis by simp
  next
    case (Cons x xs)
    then have "x = CHR ''/''" using hd_dropWhile[of ?P s] by force
    with s tw Cons have "s = ''../'' @ xs" by simp
    then show ?thesis by (metis prefixI)
  qed
qed

lemma dots_rest_Cons:
  assumes "x # xs = replicate k ''..'' @ rest" "''..'' \<notin> set rest"
  shows "\<exists>k' rest'. xs = replicate k' ''..'' @ rest' \<and> ''..'' \<notin> set rest'"
proof (cases k)
  case 0
  with assms have "xs = replicate 0 ''..'' @ tl rest" "''..'' \<notin> set (tl rest)"
    by (auto dest: list.set_sel(2))
  then show ?thesis by blast
next
  case (Suc n)
  with assms have "xs = replicate n ''..'' @ rest" by simp
  with assms(2) show ?thesis by blast
qed

lemma stripParents_no_parent:
  "\<exists>k rest. splitOn (CHR ''/'') s = replicate k ''..'' @ rest \<and> ''..'' \<notin> set rest \<Longrightarrow>
     ''..'' \<notin> set (splitOn (CHR ''/'') (stripParents s))"
proof (induction s rule: stripParents.induct)
  case (1 s)
  from "1.prems" obtain k rest where sp: "splitOn (CHR ''/'') s = replicate k ''..'' @ rest"
    and nr: "''..'' \<notin> set rest" by blast
  consider (slash) "prefix ''../'' s"
    | (bslash) "\<not> prefix ''../'' s" "prefix [CHR ''.'', CHR ''.'', CHR 0x5C] s"
    | (only) "\<not> prefix ''../'' s" "\<not> prefix [CHR ''.'', CHR ''.'', CHR 0x5C] s" "s = ''..''"
    | (keep) "\<not> prefix ''../'' s" "\<not> prefix [CHR ''.'', CHR ''.'', CHR 0x5C] s" "s \<noteq> ''..''"
    by blast
  then show ?case
  proof cases
    case slash
    then obtain s' where s: "s = ''../'' @ s'" by (auto simp: prefix_def)
    then have d: "drop 3 s = s'" by simp
    have "splitOn (CHR ''/'') s = ''..'' # splitOn (CHR ''/'') s'"
      using splitOn_append[of "CHR ''/''" "''..''" s'] s by (simp add: splitOn_no_sep)
    with sp nr dots_rest_Cons[of "''..''" "splitOn (CHR ''/'') s'" k rest]
    have "\<exists>k' rest'. splitOn (CHR ''/'') (drop 3 s) = replicate k' ''..'' @ rest' \<and> ''..'' \<notin> set rest'"
      using d by simp
    from "1.IH"[OF _ this] slash show ?thesis
      by (subst stripParents.simps) simp
  next
    case bslash
    then obtain s' where s: "s = [CHR ''.'', CHR ''.'', CHR 0x5C] @ s'" by (auto simp: prefix_def)
    then have d: "drop 3 s = s'" by simp
    obtain w ws where ws: "splitOn (CHR ''/'') s' = w # ws"
      using splitOn_nonempty[of "CHR ''/''" s'] by (cases "splitOn (CHR ''/'') s'") auto
    have first: "splitOn (CHR ''/'') s = ([CHR ''.'', CHR ''.'', CHR 0x5C] @ w) # ws"
      using s ws by simp
    have "k = 0"
    proof (rule ccontr)
      assume "k \<noteq> 0"
      then obtain n where "k = Suc n" by (cases k) auto
      with sp first show False by simp
    qed
    with sp nr first have "''..'' \<notin> set ws" by auto
    then have "\<exists>k' rest'. splitOn (CHR ''/'') s' = replicate k' ''..'' @ rest' \<and> ''..'' \<notin> set rest'"
    proof (cases "w = ''..''")
      case True
      with ws \<open>''..'' \<notin> set ws\<close> have "splitOn (CHR ''/'') s' = replicate 1 ''..'' @ ws" by simp
      with \<open>''..'' \<notin> set ws\<close> show ?thesis by blast
    next
      case False
      with ws \<open>''..'' \<notin> set ws\<close> have "splitOn (CHR ''/'') s' = replicate 0 ''..'' @ (w # ws)"
        "''..'' \<notin> set (w # ws)" by auto
      then show ?thesis by blast
    qed
    with d have "\<exists>k' rest'. splitOn (CHR ''/'') (drop 3 s) = replicate k' ''..'' @ rest' \<and> ''..'' \<notin> set rest'"
      by simp
    from "1.IH"[OF _ this] bslash show ?thesis
      by (subst stripParents.simps) simp
  next
    case only
    then show ?thesis by (subst stripParents.simps) simp
  next
    case keep
    have "k = 0"
    proof (rule ccontr)
      assume "k \<noteq> 0"
      then obtain n where "k = Suc n" by (cases k) auto
      with sp have "hd (splitOn (CHR ''/'') s) = ''..''" by simp
      from first_segment_parent[OF this] keep show False by simp
    qed
    with sp nr have "''..'' \<notin> set (splitOn (CHR ''/'') s)" by simp
    with keep show ?thesis by (subst stripParents.simps) simp
  qed
qed


lemma normalize_nonempty: "normalize j \<noteq> []"
  by (auto simp: normalize_def Let_def)

lemma pathJoin_nonempty: "pathJoin a b \<noteq> []"
  by (simp add: pathJoin_def Let_def normalize_nonempty)

lemma stripParents_absolute: "isAbsolute x \<Longrightarrow> stripParents x = x"
  by (subst stripParents.simps) (auto simp: isAbsolute_def prefix_def)

lemma stripParents_dot: "stripParents ''.'' = ''.''" "stripParents ''./'' = ''./''"
  by (subst stripParents.simps, simp)+

lemma safePath_no_parent:
  assumes "\<not> startsWith (safePathOf f) ''/''"
  shows "''..'' \<notin> set (splitOn (CHR ''/'') (safePathOf f))"
proof (cases "f = [] \<or> segments f = []")
  case True
  then have "normalize f = ''.'' \<or> normalize f = ''./'' \<or> normalize f = ''/''"
    by (auto simp: normalize_def Let_def)
  moreover have "stripParents ''/'' = ''/''" by (rule stripParents_absolute) (simp add: isAbsolute_def)
  ultimately show ?thesis using assms
    by (auto simp: safePathOf_def stripParents_dot startsWith_def)
next
  case False
  then have f: "f \<noteq> []" and segs: "segments f \<noteq> []" by auto
  show ?thesis
  proof (cases "isAbsolute f")
    case True
    then have a: "isAbsolute (normalize f)" by (simp add: normalize_key)
    then have "safePathOf f = normalize f" by (simp add: safePathOf_def stripParents_absolute)
    with a assms show ?thesis by (cases "normalize f") (auto simp: isAbsolute_def startsWith_def)
  next
    case rel: False
    from normShape_segments[of f] rel obtain k rest where
      sh: "segments f = replicate k ''..'' @ rest" and v: "list_all validName rest"
      by (auto simp: normShape_def)
    let ?post = "if trailingSep f then [[]] else []"
    have "splitOn (CHR ''/'') (normalize f) = replicate k ''..'' @ (rest @ ?post)"
      using splitOn_normalize[OF f segs] rel sh by simp
    moreover have "''..'' \<notin> set (rest @ ?post)"
      using v by (auto simp: list_all_iff validName_def)
    ultimately have "\<exists>k r. splitOn (CHR ''/'') (normalize f) = replicate k ''..'' @ r \<and> ''..'' \<notin> set r"
      by blast
    from stripParents_no_parent[OF this] show ?thesis by (simp add: safePathOf_def)
  qed
qed

lemma safePath_absolute: "isAbsolute f \<Longrightarrow> startsWith (safePathOf f) ''/''"
proof -
  assume "isAbsolute f"
  then have a: "isAbsolute (normalize f)" by (simp add: normalize_key)
  then have "safePathOf f = normalize f" by (simp add: safePathOf_def stripParents_absolute)
  with a show ?thesis by (cases "normalize f") (auto simp: isAbsolute_def startsWith_def)
qed

lemma fullPath_key:
  assumes "pd \<noteq> []" "''..'' \<notin> set (splitOn (CHR ''/'') sp)"
  shows "isAbsolute (pathJoin pd sp) = isAbsolute pd
     \<and> segments (pathJoin pd sp)
          = segments pd @ filter (\<lambda>s. s \<noteq> [] \<and> s \<noteq> ''.'') (splitOn (CHR ''/'') sp)"
  using keyOf_pathJoin[OF assms(1), of sp] normalizeSegs_no_dotdot[OF assms(2)]
  by (simp add: keyOf_def)

lemma lookupKey_update:
  "lookupKey (AList.update k' v t) k
     = (if list_all (\<lambda>s. s = ''..'') (snd k) then Some Dir else if k = k' then Some v else map_of t k)"
  by (simp add: lookupKey_def update_conv')

lemma mkdirKey_keeps_Dir:
  "mkdirKey t a pre ss = Some t' \<Longrightarrow> lookupKey t k = Some Dir \<Longrightarrow> lookupKey t' k = Some Dir"
proof (induction ss arbitrary: t pre)
  case Nil
  then show ?case by simp
next
  case (Cons s ss)
  show ?case
  proof (cases "lookupKey t (a, pre @ [s])")
    case None
    with Cons.prems have m: "mkdirKey (AList.update (a, pre @ [s]) Dir t) a (pre @ [s]) ss = Some t'"
      by simp
    have "lookupKey (AList.update (a, pre @ [s]) Dir t) k = Some Dir"
      using Cons.prems(2) unfolding lookupKey_update
      by (auto simp: lookupKey_def split: if_splits)
    from Cons.IH[OF m this] show ?thesis .
  next
    case (Some n)
    with Cons.prems have "n = Dir" "mkdirKey t a (pre @ [s]) ss = Some t'"
      by (cases n; simp)+
    from Cons.IH[OF this(2) Cons.prems(2)] show ?thesis .
  qed
qed

lemma mkdirKey_makes_Dir:
  "mkdirKey t a pre ss = Some t' \<Longrightarrow> ss \<noteq> [] \<Longrightarrow> lookupKey t' (a, pre @ ss) = Some Dir"
proof (induction ss arbitrary: t pre)
  case Nil
  then show ?case by simp
next
  case (Cons s ss)
  obtain t1 where t1: "mkdirKey t1 a (pre @ [s]) ss = Some t'"
    and d: "lookupKey t1 (a, pre @ [s]) = Some Dir"
  proof (cases "lookupKey t (a, pre @ [s])")
    case None
    with Cons.prems(1) have "mkdirKey (AList.update (a, pre @ [s]) Dir t) a (pre @ [s]) ss = Some t'"
      by simp
    moreover have "lookupKey (AList.update (a, pre @ [s]) Dir t) (a, pre @ [s]) = Some Dir"
      by (simp add: lookupKey_update)
    ultimately show ?thesis using that by blast
  next
    case (Some n)
    with Cons.prems(1) have "n = Dir" "mkdirKey t a (pre @ [s]) ss = Some t'"
      by (cases n; simp)+
    with Some show ?thesis using that by blast
  qed
  show ?case
  proof (cases "ss = []")
    case True
    with t1 d show ?thesis by simp
  next
    case False
    from Cons.IH[OF t1 False] show ?thesis by simp
  qed
qed

lemma mkdirp_Dir: "mkdirp t p = Some t' \<Longrightarrow> lookupKey t' (keyOf p) = Some Dir"
proof (cases "segments p = []")
  case True
  then show ?thesis by (simp add: lookupKey_def keyOf_def)
next
  case False
  assume "mkdirp t p = Some t'"
  then have "mkdirKey t (isAbsolute p) [] (segments p) = Some t'" by (simp add: mkdirp_def)
  from mkdirKey_makes_Dir[OF this False] show ?thesis by (simp add: keyOf_def)
qed

lemma mkdirp_keeps_Dir:
  "mkdirp t p = Some t' \<Longrightarrow> lookupKey t k = Some Dir \<Longrightarrow> lookupKey t' k = Some Dir"
  unfolding mkdirp_def by (rule mkdirKey_keeps_Dir)

lemma writeFile_effect:
  assumes "writeFile t p c = Some t'"
  shows "lookupKey t (keyOf p) \<noteq> Some Dir \<and> t' = AList.update (keyOf p) (File c) t"
  using assms
  by (auto simp: writeFile_def keyOf_def split: if_splits option.splits node.splits)

lemma writeFile_keeps_Dir:
  assumes "writeFile t p c = Some t'" "lookupKey t k = Some Dir"
  shows "lookupKey t' k = Some Dir"
proof -
  from writeFile_effect[OF assms(1)] have ne: "lookupKey t (keyOf p) \<noteq> Some Dir"
    and t': "t' = AList.update (keyOf p) (File c) t" by auto
  from ne assms(2) have "k \<noteq> keyOf p" by auto
  with t' assms(2) show ?thesis unfolding t' lookupKey_update
    by (auto simp: lookupKey_def split: if_splits)
qed


subsection \<open>Project creation\<close>

lemma fullPath_inside:
  assumes "pd \<noteq> []" "\<not> startsWith (safePathOf f) ''/''"
    and "keyOf (pathJoin pd (safePathOf f)) \<noteq> keyOf pd"
  shows "insideDir pd (pathJoin pd (safePathOf f))"
proof -
  let ?more = "filter (\<lambda>s. s \<noteq> [] \<and> s \<noteq> ''.'') (splitOn (CHR ''/'') (safePathOf f))"
  have np: "''..'' \<notin> set (splitOn (CHR ''/'') (safePathOf f))"
    by (rule safePath_no_parent[OF assms(2)])
  from fullPath_key[OF assms(1) np]
  have a: "isAbsolute (pathJoin pd (safePathOf f)) = isAbsolute pd"
    and sg: "segments (pathJoin pd (safePathOf f)) = segments pd @ ?more" by auto
  from assms(3) a sg have "?more \<noteq> []" by (auto simp: keyOf_def)
  moreover from np have "''..'' \<notin> set ?more" by auto
  ultimately show ?thesis using a sg by (simp add: insideDir_def)
qed

lemma writeEntries_inside:
  assumes "pd \<noteq> []"
  shows "lookupKey t (keyOf pd) = Some Dir \<Longrightarrow>
     \<forall>p \<in> set (written (writeEntries buildId pd t sofar entries)). p \<in> set sofar \<or> insideDir pd p"
proof (induction entries arbitrary: t sofar)
  case Nil
  then show ?case by simp
next
  case (Cons e entries)
  obtain f c where e: "e = (f, c)" by (cases e)
  let ?full = "pathJoin pd (safePathOf f)"
  show ?case
  proof (cases "startsWith (safePathOf f) ''/'' \<or> CHR 0x00 \<in> set (safePathOf f)")
    case True
    then show ?thesis using e by (simp add: Let_def)
  next
    case valid: False
    show ?thesis
    proof (cases "mkdirp t (dirname ?full)")
      case None
      with valid e show ?thesis by (simp add: Let_def)
    next
      case (Some t1)
      note t1 = this
      have d1: "lookupKey t1 (keyOf pd) = Some Dir"
        by (rule mkdirp_keeps_Dir[OF t1 Cons.prems])
      show ?thesis
      proof (cases "writeFile t1 ?full c")
        case None
        with valid e t1 show ?thesis by (simp add: Let_def)
      next
        case (Some t2)
        have d2: "lookupKey t2 (keyOf pd) = Some Dir"
          by (rule writeFile_keeps_Dir[OF Some d1])
        from writeFile_effect[OF Some] d1 have "keyOf ?full \<noteq> keyOf pd" by auto
        with valid have ins: "insideDir pd ?full"
          by (intro fullPath_inside[OF assms]) auto
        have "writeEntries buildId pd t sofar (e # entries)
            = writeEntries buildId pd t2 (sofar @ [?full]) entries"
          using valid e t1 Some by (simp add: Let_def)
        with Cons.IH[OF d2, of "sofar @ [?full]"] ins show ?thesis by auto
      qed
    qed
  qed
qed

lemma writeEntries_invalid:
  assumes "startsWith (safePathOf f) ''/'' \<or> CHR 0x00 \<in> set (safePathOf f)"
  shows "(\<exists>e. outcome (writeEntries buildId pd t sofar (pre @ (f, c) # post)) = Inl e)
     \<and> (\<exists>k \<le> length pre. written (writeEntries buildId pd t sofar (pre @ (f, c) # post))
            = sofar @ map (\<lambda>e. pathJoin pd (safePathOf (fst e))) (take k pre))"
proof (induction pre arbitrary: t sofar)
  case Nil
  with assms show ?case by (simp add: Let_def)
next
  case (Cons e pre)
  obtain f' c' where e: "e = (f', c')" by (cases e)
  let ?full = "pathJoin pd (safePathOf f')"
  let ?r = "writeEntries buildId pd t sofar ((e # pre) @ (f, c) # post)"
  have stop: "(\<exists>x. outcome ?r = Inl x) \<and> (\<exists>k \<le> length (e # pre). written ?r
        = sofar @ map (\<lambda>e. pathJoin pd (safePathOf (fst e))) (take k (e # pre)))"
    if "\<exists>x. outcome ?r = Inl x" "written ?r = sofar"
  proof -
    from that(2) have "written ?r = sofar @ map (\<lambda>e. pathJoin pd (safePathOf (fst e))) (take 0 (e # pre))"
      by simp
    with that(1) show ?thesis by blast
  qed
  show ?case
  proof (cases "startsWith (safePathOf f') ''/'' \<or> CHR 0x00 \<in> set (safePathOf f')")
    case True
    then show ?thesis using e by (intro stop) (simp_all add: Let_def)
  next
    case valid: False
    show ?thesis
    proof (cases "mkdirp t (dirname ?full)")
      case None
      with valid e show ?thesis by (intro stop) (simp_all add: Let_def)
    next
      case (Some t1)
      note t1 = this
      show ?thesis
      proof (cases "writeFile t1 ?full c'")
        case None
        with valid e t1 show ?thesis by (intro stop) (simp_all add: Let_def)
      next
        case (Some t2)
        have eq: "?r = writeEntries buildId pd t2 (sofar @ [?full]) (pre @ (f, c) # post)"
          using valid e t1 Some by (simp add: Let_def)
        from Cons.IH[of t2 "sofar @ [?full]"] obtain x k where
          x: "outcome (writeEntries buildId pd t2 (sofar @ [?full]) (pre @ (f, c) # post)) = Inl x"
          and k: "k \<le> length pre"
          and w: "written (writeEntries buildId pd t2 (sofar @ [?full]) (pre @ (f, c) # post))
            = (sofar @ [?full]) @ map (\<lambda>e. pathJoin pd (safePathOf (fst e))) (take k pre)"
          by blast
        have "written ?r = written (writeEntries buildId pd t2 (sofar @ [?full]) (pre @ (f, c) # post))"
          by (simp only: eq)
        with w e have "written ?r = sofar @ map (\<lambda>e. pathJoin pd (safePathOf (fst e))) (take (Suc k) (e # pre))"
          by simp
        moreover from k have "Suc k \<le> length (e # pre)" by simp
        moreover have "outcome ?r = Inl x" using x by (simp only: eq)
        ultimately show ?thesis by blast
      qed
    qed
  qed
qed

text \<open>
  C10 (amended): every path \<open>createProjectFromFiles\<close> writes lies inside the project
  directory (its segments are those of the directory followed by at least one more,
  none of them a parent segment); an entry whose normalised and stripped path starts
  with a slash or holds a NUL byte, as that of every absolute path does, makes the
  operation raise, and what has been written then belongs to entries before it.
\<close>

theorem C10_written_files_stay_inside:
  "(\<forall>p \<in> set (written (createProjectFromFiles uploadDir buildDir buildId t files)).
       insideDir (pathJoin uploadDir buildId) p)
   \<and> (files = pre @ (filePath, body) # post
        \<and> (startsWith (safePathOf filePath) ''/'' \<or> CHR 0x00 \<in> set (safePathOf filePath)) \<longrightarrow>
       (\<exists>e. outcome (createProjectFromFiles uploadDir buildDir buildId t files) = Inl e)
       \<and> (\<exists>k \<le> length pre. written (createProjectFromFiles uploadDir buildDir buildId t files)
              = map (\<lambda>e. pathJoin (pathJoin uploadDir buildId) (safePathOf (fst e))) (take k pre)))
   \<and> (isAbsolute filePath \<longrightarrow> startsWith (safePathOf filePath) ''/'')"
proof -
  let ?pd = "pathJoin uploadDir buildId" and ?od = "pathJoin buildDir buildId"
  let ?r = "createProjectFromFiles uploadDir buildDir buildId t files"
  have pd: "?pd \<noteq> []" by (rule pathJoin_nonempty)
  have A: "\<forall>p \<in> set (written ?r). insideDir ?pd p"
  proof (cases "mkdirp t ?pd")
    case None
    then show ?thesis by (simp add: createProjectFromFiles_def Let_def)
  next
    case (Some t1)
    note t1 = this
    show ?thesis
    proof (cases "mkdirp t1 ?od")
      case None
      with t1 show ?thesis by (simp add: createProjectFromFiles_def Let_def)
    next
      case (Some t2)
      have "lookupKey t2 (keyOf ?pd) = Some Dir"
        by (rule mkdirp_keeps_Dir[OF Some mkdirp_Dir[OF t1]])
      from writeEntries_inside[OF pd this, of buildId "[]" files] t1 Some
      show ?thesis by (simp add: createProjectFromFiles_def Let_def)
    qed
  qed
  have B: "(\<exists>e. outcome ?r = Inl e)
       \<and> (\<exists>k \<le> length pre. written ?r
              = map (\<lambda>e. pathJoin ?pd (safePathOf (fst e))) (take k pre))"
    if f: "files = pre @ (filePath, body) # post"
      and bad: "startsWith (safePathOf filePath) ''/'' \<or> CHR 0x00 \<in> set (safePathOf filePath)"
  proof (cases "mkdirp t ?pd")
    case None
    then have "outcome ?r = Inl (IOError ?pd)" "written ?r = map (\<lambda>e. pathJoin ?pd (safePathOf (fst e))) (take 0 pre)"
      by (simp_all add: createProjectFromFiles_def Let_def)
    then show ?thesis by blast
  next
    case (Some t1)
    note t1 = this
    show ?thesis
    proof (cases "mkdirp t1 ?od")
      case None
      with t1 have "outcome ?r = Inl (IOError ?od)" "written ?r = map (\<lambda>e. pathJoin ?pd (safePathOf (fst e))) (take 0 pre)"
        by (simp_all add: createProjectFromFiles_def Let_def)
      then show ?thesis by blast
    next
      case (Some t2)
      with t1 f have "?r = writeEntries buildId ?pd t2 [] (pre @ (filePath, body) # post)"
        by (simp add: createProjectFromFiles_def Let_def)
      with writeEntries_invalid[OF bad, of buildId ?pd t2 "[]" pre body post] show ?thesis by simp
    qed
  qed
  from A B safePath_absolute[of filePath] show ?thesis by blast
qed

text \<open>The theorem at work: the first two entries are written under the project directory (the
  parent steps of the second are stripped), the third is absolute and raises, the fourth is never
  reached.\<close>

theorem C10_written_files_stay_inside_witness:
  "written (createProjectFromFiles ''uploads'' ''builds'' ''id'' []
       [(''src/lib.rs'', ''x''), (''../../etc/passwd'', ''y''), (''/abs'', ''z''), (''later'', ''w'')])
     = [''uploads/id/src/lib.rs'', ''uploads/id/etc/passwd'']
   \<and> insideDir ''uploads/id'' ''uploads/id/src/lib.rs''
   \<and> insideDir ''uploads/id'' ''uploads/id/etc/passwd''
   \<and> (\<exists>e. outcome (createProjectFromFiles ''uploads'' ''builds'' ''id'' []
       [(''src/lib.rs'', ''x''), (''../../etc/passwd'', ''y''), (''/abs'', ''z''), (''later'', ''w'')]) = Inl e)
   \<and> startsWith (safePathOf ''/abs'') ''/''"
proof -
  let ?files = "[(''src/lib.rs'', ''x''), (''../../etc/passwd'', ''y''), (''/abs'', ''z''), (''later'', ''w'')]"
  let ?r = "createProjectFromFiles ''uploads'' ''builds'' ''id'' [] ?files"
  have w: "written ?r = [''uploads/id/src/lib.rs'', ''uploads/id/etc/passwd'']" by code_simp
  have pd: "pathJoin ''uploads'' ''id'' = ''uploads/id''" by code_simp
  have abs: "isAbsolute ''/abs''" by code_simp
  note T = C10_written_files_stay_inside[of "''uploads''" "''builds''" "''id''" "[]" ?files
      "[(''src/lib.rs'', ''x''), (''../../etc/passwd'', ''y'')]" "''/abs''" "''z''" "[(''later'', ''w'')]"]
  from T abs have s: "startsWith (safePathOf ''/abs'') ''/''" by blast
  from T w pd have i: "insideDir ''uploads/id'' ''uploads/id/src/lib.rs''"
    "insideDir ''uploads/id'' ''uploads/id/etc/passwd''" by simp_all
  from T s have "\<exists>e. outcome ?r = Inl e" by simp
  with w i s show ?thesis by blast
qed

text \<open>C10, the sentence as written: a path holding a NUL byte does not always raise. The check
  is made on the normalised path, so a NUL inside a segment that normalisation removes
  (\<^verbatim>\<open>a\0/../c\<close>) passes and the file \<^verbatim>\<open>c\<close> is written.\<close>

theorem C10_nul_in_dropped_segment:
  "CHR 0x00 \<in> set [CHR ''a'', CHR 0x00, CHR ''/'', CHR ''.'', CHR ''.'', CHR ''/'', CHR ''c'']
   \<and> outcome (createProjectFromFiles ''uploads'' ''builds'' ''id'' []
        [([CHR ''a'', CHR 0x00, CHR ''/'', CHR ''.'', CHR ''.'', CHR ''/'', CHR ''c''], ''x'')]) = Inr ''id''
   \<and> written (createProjectFromFiles ''uploads'' ''builds'' ''id'' []
        [([CHR ''a'', CHR 0x00, CHR ''/'', CHR ''.'', CHR ''.'', CHR ''/'', CHR ''c''], ''x'')])
       = [''uploads/id/c'']"
  by code_simp

subsection \<open>Secret Extractor and Purger\<close>

lemma keyOf_child:
  assumes "dd \<noteq> []" "validName f"
  shows "keyOf (pathJoin dd f) = (fst (keyOf dd), snd (keyOf dd) @ [f])"
proof -
  from assms(2) have "splitOn (CHR ''/'') f = [f]" by (simp add: validName_def splitOn_no_sep)
  with keyOf_pathJoin[OF assms(1), of f] normalizeSegs_valid[OF assms(2)]
  show ?thesis by (simp add: keyOf_def)
qed

lemma pathJoin3_nonempty: "pathJoin3 a b c \<noteq> []"
  by (simp add: pathJoin3_def Let_def normalize_nonempty)

lemma keypairOfFile_cases:
  "keypairOfFile pk b58 t dd f = [] \<or>
   (\<exists>text raw key. endsWith f ''-keypair.json'' \<and> readFile t (pathJoin dd f) = Some text
      \<and> jsonByteArray text = Some raw \<and> fromSecretKey pk raw = Some key
      \<and> keypairOfFile pk b58 t dd f =
          [\<lparr> kp_name = replaceFirst ''-keypair.json'' [] f, filename = f, pubkey = b58 key, secret = raw \<rparr>])"
  by (auto simp: keypairOfFile_def split: option.splits)

lemma concat_singletons:
  assumes "\<And>x. x \<in> set xs \<Longrightarrow> g x = [] \<or> (\<exists>y. g x = [y] \<and> h y = x)"
  shows "map h (concat (map g xs)) = filter (\<lambda>x. g x \<noteq> []) xs"
  using assms
proof (induction xs)
  case Nil
  then show ?case by simp
next
  case (Cons x xs)
  from Cons.prems[of x] have "g x = [] \<or> (\<exists>y. g x = [y] \<and> h y = x)" by simp
  moreover from Cons have "map h (concat (map g xs)) = filter (\<lambda>x. g x \<noteq> []) xs" by simp
  ultimately show ?case by auto
qed

lemma extractKeypairs_names:
  assumes "readdir t (pathJoin3 od ''target'' ''deploy'') = Some files"
  shows "map filename (extractKeypairs pk b58 t od)
      = filter (\<lambda>f. keypairOfFile pk b58 t (pathJoin3 od ''target'' ''deploy'') f \<noteq> []) files"
proof -
  let ?dd = "pathJoin3 od ''target'' ''deploy''"
  have "map filename (concat (map (keypairOfFile pk b58 t ?dd) files))
      = filter (\<lambda>f. keypairOfFile pk b58 t ?dd f \<noteq> []) files"
  proof (rule concat_singletons)
    fix f
    from keypairOfFile_cases[of pk b58 t ?dd f]
    show "keypairOfFile pk b58 t ?dd f = [] \<or> (\<exists>y. keypairOfFile pk b58 t ?dd f = [y] \<and> filename y = f)"
      by auto
  qed
  with assms show ?thesis by (simp add: extractKeypairs_def Let_def)
qed

lemma extractKeypairs_member:
  assumes "kp \<in> set (extractKeypairs pk b58 t od)"
  shows "\<exists>files text. readdir t (pathJoin3 od ''target'' ''deploy'') = Some files
      \<and> filename kp \<in> set files
      \<and> readFile t (pathJoin (pathJoin3 od ''target'' ''deploy'') (filename kp)) = Some text"
proof -
  let ?dd = "pathJoin3 od ''target'' ''deploy''"
  from assms obtain files where rd: "readdir t ?dd = Some files"
    by (cases "readdir t ?dd") (auto simp: extractKeypairs_def Let_def)
  with assms obtain f where f: "f \<in> set files" and kp: "kp \<in> set (keypairOfFile pk b58 t ?dd f)"
    by (auto simp: extractKeypairs_def Let_def)
  from keypairOfFile_cases[of pk b58 t ?dd f] kp
  obtain body where "readFile t (pathJoin ?dd f) = Some body" "filename kp = f" by auto
  with rd f show ?thesis by auto
qed

text \<open>A key whose file is present or already gone, and what the purge does to it.\<close>

lemma unlinkQuietly_other:
  assumes "map_of t k = None \<or> (\<exists>c. map_of t k = Some (File c))"
  shows "map_of (unlinkQuietly dd t kp) k = None \<or> map_of (unlinkQuietly dd t kp) k = map_of t k"
  by (auto simp: unlinkQuietly_def unlink_def delete_conv' split: option.splits node.splits if_splits)

lemma unlinkQuietly_gone_stays:
  "map_of t k = None \<Longrightarrow> map_of (unlinkQuietly dd t kp) k = None"
  by (auto simp: unlinkQuietly_def unlink_def delete_conv' split: option.splits node.splits if_splits)

lemma unlinkQuietly_removes:
  assumes "map_of t (keyOf (pathJoin dd (filename kp))) = None
      \<or> (\<exists>c. map_of t (keyOf (pathJoin dd (filename kp))) = Some (File c))"
    and "\<not> trailingSep (pathJoin dd (filename kp))"
    and "\<not> list_all (\<lambda>s. s = ''..'') (snd (keyOf (pathJoin dd (filename kp))))"
  shows "map_of (unlinkQuietly dd t kp) (keyOf (pathJoin dd (filename kp))) = None"
  using assms
  by (auto simp: unlinkQuietly_def unlink_def lookupKey_def delete_conv' split: option.splits node.splits)

lemma foldl_gone_stays:
  "map_of t k = None \<Longrightarrow> map_of (foldl (unlinkQuietly dd) t kps) k = None"
  by (induction kps arbitrary: t) (auto simp: unlinkQuietly_gone_stays)

lemma foldl_removes:
  assumes "kp \<in> set kps"
    and "map_of t (keyOf (pathJoin dd (filename kp))) = None
      \<or> (\<exists>c. map_of t (keyOf (pathJoin dd (filename kp))) = Some (File c))"
    and "\<not> trailingSep (pathJoin dd (filename kp))"
    and "\<not> list_all (\<lambda>s. s = ''..'') (snd (keyOf (pathJoin dd (filename kp))))"
  shows "map_of (foldl (unlinkQuietly dd) t kps) (keyOf (pathJoin dd (filename kp))) = None"
  using assms(1,2)
proof (induction kps arbitrary: t)
  case Nil
  then show ?case by simp
next
  case (Cons x kps)
  let ?k = "keyOf (pathJoin dd (filename kp))"
  show ?case
  proof (cases "x = kp")
    case True
    from unlinkQuietly_removes[OF Cons.prems(2) assms(3) assms(4)]
    have "map_of (unlinkQuietly dd t kp) ?k = None" .
    from foldl_gone_stays[OF this] True show ?thesis by simp
  next
    case False
    with Cons.prems(1) have in_rest: "kp \<in> set kps" by simp
    from unlinkQuietly_other[OF Cons.prems(2), of dd x] Cons.prems(2)
    have "map_of (unlinkQuietly dd t x) ?k = None
        \<or> (\<exists>c. map_of (unlinkQuietly dd t x) ?k = Some (File c))" by auto
    from Cons.IH[OF in_rest this] show ?thesis by simp
  qed
qed

lemma readdir_absent:
  assumes "readdir t dd = Some files" "dd \<noteq> []" "validName f"
    and "map_of t (keyOf (pathJoin dd f)) = None"
  shows "f \<notin> set files"
proof
  assume "f \<in> set files"
  with assms(1) obtain e where e: "e \<in> set t" "snd (fst e) \<noteq> []"
    "(fst (fst e), butlast (snd (fst e))) = keyOf dd" "last (snd (fst e)) = f"
    by (auto simp: readdir_def split: option.splits node.splits)
  from e(2) have "snd (fst e) = butlast (snd (fst e)) @ [last (snd (fst e))]" by simp
  with e(3,4) have "fst e = (fst (keyOf dd), snd (keyOf dd) @ [f])"
    by (metis fst_conv snd_conv prod.collapse)
  with keyOf_child[OF assms(2,3)] have "fst e = keyOf (pathJoin dd f)" by simp
  with e(1) have "keyOf (pathJoin dd f) \<in> fst ` set t" by force
  with assms(4) show False by (simp add: map_of_eq_None_iff)
qed


lemma filter_length_mono:
  "(\<And>x. P x \<Longrightarrow> Q x) \<Longrightarrow> length (filter P xs) \<le> length (filter Q xs)"
  by (induction xs) auto

lemma readFile_Some:
  "readFile t p = Some body \<Longrightarrow>
     map_of t (keyOf p) = Some (File body) \<and> \<not> trailingSep p
     \<and> \<not> list_all (\<lambda>s. s = ''..'') (snd (keyOf p))"
  by (auto simp: readFile_def lookupKey_def split: option.splits node.splits if_splits)

text \<open>C5 (amended): let the deploy directory \<^verbatim>\<open>target/deploy\<close> of the output directory list
  \<open>files\<close>, all plain names. The keypair records are, in listing order, those names for which
  the file ends in \<^verbatim>\<open>-keypair.json\<close>, can be read, parses as a JSON array of bytes and is accepted
  as a secret key; so there are at most as many records as credential files, not always as many.
  On a successful build the response carrying the records is sent first and one unlink is then
  issued per record, in order; afterwards no file named by a record is listed in the deploy
  directory.\<close>

theorem C5_secrets_delivered_then_purged:
  assumes "readdir t (pathJoin3 outputDir ''target'' ''deploy'') = Some files"
    and "list_all validName files"
  shows "map filename (extractKeypairs pk b58 t outputDir)
       = filter (\<lambda>f. keypairOfFile pk b58 t (pathJoin3 outputDir ''target'' ''deploy'') f \<noteq> []) files
     \<and> length (extractKeypairs pk b58 t outputDir)
         \<le> length (filter (\<lambda>f. endsWith f ''-keypair.json'') files)
     \<and> respondAndPurge pk b58 t outputDir True
         = (Responded (if extractKeypairs pk b58 t outputDir \<noteq> []
                       then Some (extractKeypairs pk b58 t outputDir) else None)
              # map (\<lambda>kp. UnlinkCalled (filename kp)) (extractKeypairs pk b58 t outputDir),
            deleteKeypairFiles t outputDir (extractKeypairs pk b58 t outputDir))
     \<and> (\<forall>kp files'. kp \<in> set (extractKeypairs pk b58 t outputDir)
           \<and> readdir (snd (respondAndPurge pk b58 t outputDir True))
                (pathJoin3 outputDir ''target'' ''deploy'') = Some files'
           \<longrightarrow> filename kp \<notin> set files')"
proof -
  let ?dd = "pathJoin3 outputDir ''target'' ''deploy''"
  let ?kps = "extractKeypairs pk b58 t outputDir"
  have A: "map filename ?kps = filter (\<lambda>f. keypairOfFile pk b58 t ?dd f \<noteq> []) files"
    by (rule extractKeypairs_names[OF assms(1)])
  have "length ?kps = length (map filename ?kps)" by simp
  also have "\<dots> = length (filter (\<lambda>f. keypairOfFile pk b58 t ?dd f \<noteq> []) files)"
    by (simp only: A)
  also have "\<dots> \<le> length (filter (\<lambda>f. endsWith f ''-keypair.json'') files)"
    by (rule filter_length_mono) (auto simp: keypairOfFile_def split: if_splits)
  finally have B: "length ?kps \<le> length (filter (\<lambda>f. endsWith f ''-keypair.json'') files)" .
  have C: "respondAndPurge pk b58 t outputDir True
         = (Responded (if ?kps \<noteq> [] then Some ?kps else None)
              # map (\<lambda>kp. UnlinkCalled (filename kp)) ?kps,
            deleteKeypairFiles t outputDir ?kps)"
    by (simp add: respondAndPurge_def Let_def deleteKeypairFiles_def)
  have D: "filename kp \<notin> set files'"
    if kp: "kp \<in> set ?kps"
      and rd: "readdir (snd (respondAndPurge pk b58 t outputDir True)) ?dd = Some files'"
    for kp files'
  proof -
    from extractKeypairs_member[OF kp] assms(1) obtain body where
      f: "filename kp \<in> set files" and r: "readFile t (pathJoin ?dd (filename kp)) = Some body"
      by auto
    from f assms(2) have v: "validName (filename kp)" by (simp add: list_all_iff)
    from readFile_Some[OF r] have
      p: "map_of t (keyOf (pathJoin ?dd (filename kp))) = None
          \<or> (\<exists>c. map_of t (keyOf (pathJoin ?dd (filename kp))) = Some (File c))"
      and ts: "\<not> trailingSep (pathJoin ?dd (filename kp))"
      and nd: "\<not> list_all (\<lambda>s. s = ''..'') (snd (keyOf (pathJoin ?dd (filename kp))))"
      by auto
    from foldl_removes[OF kp p ts nd]
    have gone: "map_of (deleteKeypairFiles t outputDir ?kps) (keyOf (pathJoin ?dd (filename kp))) = None"
      by (simp add: deleteKeypairFiles_def)
    from rd C have "readdir (deleteKeypairFiles t outputDir ?kps) ?dd = Some files'" by simp
    from readdir_absent[OF this pathJoin3_nonempty v gone] show ?thesis .
  qed
  from A B C D show ?thesis by blast
qed

text \<open>The theorem at work: of two credential files one holds 64 bytes and one holds three; one
  record is delivered, its file is unlinked after the response, and the other file stays.\<close>

theorem C5_secrets_delivered_then_purged_witness:
  "map filename (extractKeypairs (\<lambda>seed. seed) (\<lambda>key. ''pub'') exKeyTree ''out'') = [''prog-keypair.json'']
   \<and> readdir exKeyTree (pathJoin3 ''out'' ''target'' ''deploy'')
        = Some [''prog.so'', ''prog-keypair.json'', ''bad-keypair.json'']
   \<and> (\<exists>kp. fst (respondAndPurge (\<lambda>seed. seed) (\<lambda>key. ''pub'') exKeyTree ''out'' True)
        = [Responded (Some [kp]), UnlinkCalled ''prog-keypair.json''])
   \<and> readdir (snd (respondAndPurge (\<lambda>seed. seed) (\<lambda>key. ''pub'') exKeyTree ''out'' True))
        (pathJoin3 ''out'' ''target'' ''deploy'') = Some [''prog.so'', ''bad-keypair.json'']"
proof -
  let ?pk = "\<lambda>seed :: nat list. seed" and ?b58 = "\<lambda>key :: nat list. ''pub''"
  have rd: "readdir exKeyTree (pathJoin3 ''out'' ''target'' ''deploy'')
        = Some [''prog.so'', ''prog-keypair.json'', ''bad-keypair.json'']" by code_simp
  have v: "list_all validName [''prog.so'', ''prog-keypair.json'', ''bad-keypair.json'']" by code_simp
  have names: "map filename (extractKeypairs ?pk ?b58 exKeyTree ''out'') = [''prog-keypair.json'']"
    by code_simp
  then obtain kp where kp: "extractKeypairs ?pk ?b58 exKeyTree ''out'' = [kp]" "filename kp = ''prog-keypair.json''"
    by (cases "extractKeypairs ?pk ?b58 exKeyTree ''out''") auto
  note T = C5_secrets_delivered_then_purged[OF rd v, of ?pk ?b58]
  from T kp have eff: "fst (respondAndPurge ?pk ?b58 exKeyTree ''out'' True)
        = [Responded (Some [kp]), UnlinkCalled ''prog-keypair.json'']" by simp
  have after: "readdir (snd (respondAndPurge ?pk ?b58 exKeyTree ''out'' True))
        (pathJoin3 ''out'' ''target'' ''deploy'') = Some [''prog.so'', ''bad-keypair.json'']" by code_simp
  from names rd eff after show ?thesis by blast
qed

text \<open>C5, the sentence as written: one credential file exists after a successful build, yet the
  response carries no keypair record, because the file does not hold a 64 byte secret key; the
  file is skipped silently and is not unlinked either.\<close>

theorem C5_unparsable_keypair_is_skipped:
  "\<forall>pk b58. readdir exOutTree (pathJoin3 ''out'' ''target'' ''deploy'') = Some [''prog.so'', ''prog-keypair.json'']
     \<and> length (filter (\<lambda>f. endsWith f ''-keypair.json'') [''prog.so'', ''prog-keypair.json'']) = 1
     \<and> extractKeypairs pk b58 exOutTree ''out'' = []
     \<and> fst (respondAndPurge pk b58 exOutTree ''out'' True) = [Responded None]"
proof (intro allI)
  fix pk :: "nat list \<Rightarrow> nat list" and b58 :: "nat list \<Rightarrow> string"
  have rd: "readdir exOutTree (pathJoin3 ''out'' ''target'' ''deploy'') = Some [''prog.so'', ''prog-keypair.json'']"
    by code_simp
  have n: "length (filter (\<lambda>f. endsWith f ''-keypair.json'') [''prog.so'', ''prog-keypair.json'']) = 1"
    by code_simp
  have j: "jsonByteArray ''[1,2,3]'' = Some [1, 2, 3]" by code_simp
  have r: "readFile exOutTree (pathJoin (pathJoin3 ''out'' ''target'' ''deploy'') ''prog-keypair.json'') = Some ''[1,2,3]''"
    by code_simp
  have e: "\<not> endsWith ''prog.so'' ''-keypair.json''" by code_simp
  have k: "extractKeypairs pk b58 exOutTree ''out'' = []"
    using rd j r e by (simp add: extractKeypairs_def Let_def keypairOfFile_def fromSecretKey_def)
  then have "fst (respondAndPurge pk b58 exOutTree ''out'' True) = [Responded None]"
    by (simp add: respondAndPurge_def Let_def)
  with rd n k show "readdir exOutTree (pathJoin3 ''out'' ''target'' ''deploy'') = Some [''prog.so'', ''prog-keypair.json'']
     \<and> length (filter (\<lambda>f. endsWith f ''-keypair.json'') [''prog.so'', ''prog-keypair.json'']) = 1
     \<and> extractKeypairs pk b58 exOutTree ''out'' = []
     \<and> fst (respondAndPurge pk b58 exOutTree ''out'' True) = [Responded None]" by blast
qed

subsection \<open>Concurrency Guard\<close>

lemma respond_keeps_lock: "activeAgentBuilds (respond s rid r) = activeAgentBuilds s"
  by (simp add: respond_def)

text \<open>A request that arrives while the map holds an entry for its agent is answered 409 with
  the build id of that entry, and the map is left as it is.\<close>

theorem arrive_refused_while_locked:
  assumes "getActiveAgentBuild s agentId = Some activeBuild"
  shows "handlerStep s (Arrive rid agentId valid) = respond s rid (Conflict (ab_buildId activeBuild))
       \<and> activeAgentBuilds (handlerStep s (Arrive rid agentId valid)) = activeAgentBuilds s"
  using assms by (simp add: respond_keeps_lock)

theorem arrive_refused_while_locked_witness:
  "getActiveAgentBuild (serve idle [Arrive 1 ''agent'' True, ProjectCreated 1 ''b1'']) ''agent''
     = Some \<lparr> ab_buildId = ''b1'', startedAt = 1 \<rparr>
   \<and> responses (handlerStep (serve idle [Arrive 1 ''agent'' True, ProjectCreated 1 ''b1''])
        (Arrive 2 ''agent'' True)) = [(2, Conflict ''b1'')]"
proof -
  have l: "getActiveAgentBuild (serve idle [Arrive 1 ''agent'' True, ProjectCreated 1 ''b1'']) ''agent''
     = Some \<lparr> ab_buildId = ''b1'', startedAt = 1 \<rparr>" by code_simp
  have r: "responses (serve idle [Arrive 1 ''agent'' True, ProjectCreated 1 ''b1'']) = []"
    by code_simp
  from arrive_refused_while_locked[OF l, of 2 True] r l show ?thesis
    by (simp add: respond_def)
qed

text \<open>C1: the check of the map and the insertion into it are two segments of the handler, with
  the await of the project creation between them. Two requests of one agent that both arrive
  before the first project is created are both admitted: no 409 is sent and two builds of the
  agent are in flight. (When the second request arrives after the insertion it is refused.)\<close>

theorem C1_two_builds_in_flight:
  "inFlight (serve idle [Arrive 1 ''agent'' True, Arrive 2 ''agent'' True,
                 ProjectCreated 1 ''b1'', ProjectCreated 2 ''b2'']) ''agent'' = [''b1'', ''b2'']
   \<and> responses (serve idle [Arrive 1 ''agent'' True, Arrive 2 ''agent'' True,
                 ProjectCreated 1 ''b1'', ProjectCreated 2 ''b2'']) = []
   \<and> responses (serve idle [Arrive 1 ''agent'' True, ProjectCreated 1 ''b1'',
                 Arrive 2 ''agent'' True]) = [(2, Conflict ''b1'')]"
  by code_simp

end
